theory Spec2Isabelle
  imports Main
begin

section \<open>Values, promises and the functions a chain is built from\<close>

text \<open>
  The executor of \<^verbatim>\<open>src/lib/executor.ts\<close> inspects the values it is handed in two
  places only, both by truthiness: \<^verbatim>\<open>if (error)\<close> in the continuation (line 73) and in
  \<^verbatim>\<open>finish\<close> (lines 149 and 158). A thrown value is any JavaScript value, so the model
  keeps the falsy ones apart from the truthy ones.
\<close>

datatype jsval =
    Undefined
  | Null
  | Bool bool
  | Num int
  | Str string
  | ErrorObj string
  | TypeErrorObj string
  | SyntaxErrorObj string

fun truthy :: "jsval \<Rightarrow> bool" where
  "truthy Undefined = False"
| "truthy Null = False"
| "truthy (Bool b) = b"
| "truthy (Num n) = (n \<noteq> 0)"
| "truthy (Str s) = (s \<noteq> [])"
| "truthy (ErrorObj m) = True"
| "truthy (TypeErrorObj m) = True"
| "truthy (SyntaxErrorObj m) = True"

text \<open>
  The promises of one invocation of the chain. Executors nest linearly (an executor creates
  at most one executor, for the middleware after its own), so an executor is named by its
  depth, which is the position of its middleware in the list, and each promise by the
  executor that creates it:
  \<^item> \<open>Internal e\<close>: \<^verbatim>\<open>internalPromise\<close> of executor \<open>e\<close> (line 38);
  \<^item> \<open>Teardown e\<close>: \<^verbatim>\<open>teardownPromise\<close> of executor \<open>e\<close> (line 47);
  \<^item> \<open>Result e\<close>: the promise an asynchronous \<^verbatim>\<open>currentFn\<close> of executor \<open>e\<close> returns;
  \<^item> \<open>RouteResult e\<close>: the promise an asynchronous \<^verbatim>\<open>apiRouteFn\<close> returns to executor \<open>e\<close>;
  \<^item> \<open>Final\<close>: the promise of \<^verbatim>\<open>finalRouteHandler\<close> (line 12), the outcome the caller sees.
\<close>

datatype pid = Internal nat | Teardown nat | Result nat | RouteResult nat | Final

datatype pstate = Pending | Fulfilled | Rejected jsval

text \<open>
  Middleware and route handlers are inputs of the executor, not part of it. They are given
  as straight-line bodies in a small statement language, enough for every shape the
  executor distinguishes: observable effects, calling the continuation with or without an
  argument, awaiting its handle, awaiting something else, throwing, and catching.
  \<open>Catch\<close> is the mark a \<open>Try\<close> block leaves behind while its body runs.
\<close>

datatype stmt =
    Effect nat
  | Next jsval
  | AwaitNext jsval
  | AwaitTick
  | Throw jsval
  | Try "stmt list" "stmt list"
  | Catch "stmt list"

datatype fn = Sync "stmt list" | Async "stmt list"

datatype src = FromNext | FromTick

datatype event =
    MwCall nat
  | RouteCall nat
  | Eff nat
  | Settle pid pstate
  | Resume pid src pstate

datatype susp =
    Done
  | Threw jsval
  | AwaitingNext "stmt list"
  | AwaitingTick "stmt list"

fun wt :: "stmt \<Rightarrow> nat" where
  "wt (Try b c) = 2 + sum_list (map wt b) + sum_list (map wt c)"
| "wt (Catch c) = 1 + sum_list (map wt c)"
| "wt (Effect n) = 1"
| "wt (Next v) = 1"
| "wt (AwaitNext v) = 1"
| "wt AwaitTick = 1"
| "wt (Throw v) = 1"

text \<open>Where a thrown value lands: the handler of the nearest enclosing \<open>Try\<close>, then the
  statements after that block; \<open>None\<close> when nothing encloses the throw.\<close>

fun unwind :: "stmt list \<Rightarrow> stmt list option" where
  "unwind [] = None"
| "unwind (Catch c # k) = Some (c @ k)"
| "unwind (x # k) = unwind k"

text \<open>
  \<open>run_body nx k\<close> runs the statements \<open>k\<close> up to the next suspension point, the end of
  the body or an uncaught throw, and returns the effects performed on the way.
  \<open>nx\<close> says whether a continuation was passed: a middleware gets one (line 71), the
  route handler is called with the two context values only (line 120), so there
  \<^verbatim>\<open>next\<close> is undefined and calling it is a TypeError.
  The continuation itself is lines 71-80: a truthy argument is thrown at the call site,
  otherwise the teardown promise is returned.
\<close>

function run_body :: "bool \<Rightarrow> stmt list \<Rightarrow> event list \<times> susp" where
  "run_body nx [] = ([], Done)"
| "run_body nx (Effect n # k) = (case run_body nx k of (es, r) \<Rightarrow> (Eff n # es, r))"
| "run_body nx (Catch c # k) = run_body nx k"
| "run_body nx (Try b c # k) = run_body nx (b @ Catch c # k)"
| "run_body nx (Throw v # k) =
     (case unwind k of None \<Rightarrow> ([], Threw v) | Some k' \<Rightarrow> run_body nx k')"
| "run_body nx (Next v # k) =
     (if \<not> nx then
        (case unwind k of None \<Rightarrow> ([], Threw (TypeErrorObj ''next is not a function''))
         | Some k' \<Rightarrow> run_body nx k')
      else if truthy v then
        (case unwind k of None \<Rightarrow> ([], Threw v) | Some k' \<Rightarrow> run_body nx k')
      else run_body nx k)"
| "run_body nx (AwaitNext v # k) =
     (if \<not> nx then
        (case unwind k of None \<Rightarrow> ([], Threw (TypeErrorObj ''next is not a function''))
         | Some k' \<Rightarrow> run_body nx k')
      else if truthy v then
        (case unwind k of None \<Rightarrow> ([], Threw v) | Some k' \<Rightarrow> run_body nx k')
      else ([], AwaitingNext k))"
| "run_body nx (AwaitTick # k) = ([], AwaitingTick k)"
  by pat_completeness auto
termination
proof -
  have uw: "unwind k = Some k' \<Longrightarrow> sum_list (map wt k') < sum_list (map wt k)" for k k'
    by (induction k rule: unwind.induct) auto
  show ?thesis
    by (relation "measure (\<lambda>(nx, k). sum_list (map wt k))") (auto dest: uw)
qed


section \<open>The state of one invocation\<close>

text \<open>
  A promise is its state and the reactions waiting for it. The reactions are the closures
  the source registers, one constructor per place:
  \<^item> \<open>OnResult e\<close>: the pair of handlers of lines 86-94, on the result of \<^verbatim>\<open>currentFn\<close>;
  \<^item> \<open>OnRemaining e\<close>: the rest of \<^verbatim>\<open>runRemaining\<close> after its \<^verbatim>\<open>await\<close> (lines 120, 130),
    that is line 134 or the catch block of line 136;
  \<^item> \<open>OnFinal\<close>: the rest of \<^verbatim>\<open>finalRouteHandler\<close> after its \<^verbatim>\<open>await\<close> (line 13);
  \<^item> \<open>Continue p src k\<close>: the rest \<open>k\<close> of the asynchronous function whose own promise is
    \<open>p\<close>, suspended at an \<^verbatim>\<open>await\<close>.
\<close>

datatype reaction =
    OnResult nat
  | OnRemaining nat
  | OnFinal
  | Continue pid src "stmt list"

record promise =
  pst :: pstate
  reactions :: "reaction list"

text \<open>The microtask queue holds the callback of line 98 and promise reaction jobs.\<close>

datatype job = Microtask nat | React reaction pstate

text \<open>
  The fields of class \<^verbatim>\<open>Executor\<close> (lines 18-57). \<open>currentFn\<close> is \<open>None\<close> when the
  destructuring of line 50 finds no first element (JavaScript's \<^verbatim>\<open>undefined\<close>);
  \<open>result\<close> is \<open>None\<close> while it is \<^verbatim>\<open>undefined\<close>, which is also what a synchronous
  middleware returns. \<open>asyncMiddlewareFailed\<close> is the local variable of line 82, shared
  by the closures of lines 90 and 98. The two opaque context values are passed on
  unchanged and never read, so they are left out.
\<close>

record executor =
  currentFn :: "fn option"
  remaining :: "fn list"
  apiRouteFn :: fn
  result :: "pid option"
  asyncMiddlewareFailed :: bool

record state =
  execs :: "nat \<Rightarrow> executor"
  proms :: "pid \<Rightarrow> promise"
  queue :: "job list"
  log :: "event list"

definition new_Executor :: "fn list \<Rightarrow> fn \<Rightarrow> executor" where
  "new_Executor ms h =
     \<lparr> currentFn = (case ms of [] \<Rightarrow> None | m # rest \<Rightarrow> Some m),
       remaining = (case ms of [] \<Rightarrow> [] | m # rest \<Rightarrow> rest),
       apiRouteFn = h,
       result = None,
       asyncMiddlewareFailed = False \<rparr>"

definition emit :: "event list \<Rightarrow> state \<Rightarrow> state" where
  "emit es s = s\<lparr>log := log s @ es\<rparr>"

definition enqueue :: "job \<Rightarrow> state \<Rightarrow> state" where
  "enqueue j s = s\<lparr>queue := queue s @ [j]\<rparr>"

text \<open>
  Modelled from the spec: \<^verbatim>\<open>controlledPromise\<close> and \<^verbatim>\<open>isPromise\<close> of
  \<^verbatim>\<open>./promises\<close>, which is not among the sources. The spec describes a controlled promise
  as "a value and its resolve/reject control exposed separately ... with first-fire-wins
  semantics": \<open>settle\<close> is that resolve/reject control. A pending promise takes the
  state and hands each waiting reaction to the microtask queue, in the order they were
  registered; a settled promise ignores the call.
\<close>

definition settle :: "pid \<Rightarrow> pstate \<Rightarrow> state \<Rightarrow> state" where
  "settle p st s =
     (if pst (proms s p) \<noteq> Pending then s
      else s\<lparr> proms := (proms s)(p := \<lparr> pst = st, reactions = [] \<rparr>),
              queue := queue s @ map (\<lambda>r. React r st) (reactions (proms s p)),
              log := log s @ [Settle p st] \<rparr>)"

definition isPromise :: "pid option \<Rightarrow> bool" where
  "isPromise r = (r \<noteq> None)"

text \<open>\<^verbatim>\<open>then\<close> and \<^verbatim>\<open>await\<close> on a promise: wait if it is pending, otherwise the
  reaction job is queued at once.\<close>

definition subscribe :: "pid \<Rightarrow> reaction \<Rightarrow> state \<Rightarrow> state" where
  "subscribe p r s =
     (if pst (proms s p) = Pending
      then s\<lparr> proms := (proms s)(p := (proms s p)\<lparr> reactions := reactions (proms s p) @ [r] \<rparr>) \<rparr>
      else enqueue (React r (pst (proms s p))) s)"

definition succeed :: "nat \<Rightarrow> state \<Rightarrow> state" where
  "succeed e s = settle (Internal e) Fulfilled s"

definition fail :: "nat \<Rightarrow> jsval \<Rightarrow> state \<Rightarrow> state" where
  "fail e err s = settle (Internal e) (Rejected err) s"

text \<open>The executor whose continuation an asynchronous function was given, and whether
  it was given one.\<close>

fun owner :: "pid \<Rightarrow> nat" where
  "owner (Internal e) = e"
| "owner (Teardown e) = e"
| "owner (Result e) = e"
| "owner (RouteResult e) = e"
| "owner Final = 0"

fun has_next :: "pid \<Rightarrow> bool" where
  "has_next (Result e) = True"
| "has_next p = False"

text \<open>
  What an asynchronous function with promise \<open>p\<close> does with the outcome of running its
  body: settle its own promise at the end or at an uncaught throw, wait for the teardown
  promise of its executor at \<^verbatim>\<open>await next()\<close>, or queue its own resumption at an
  \<^verbatim>\<open>await\<close> of a value that is no promise.
\<close>

fun suspend :: "pid \<Rightarrow> event list \<times> susp \<Rightarrow> state \<Rightarrow> state" where
  "suspend p (es, Done) s = settle p Fulfilled (emit es s)"
| "suspend p (es, Threw v) s = settle p (Rejected v) (emit es s)"
| "suspend p (es, AwaitingNext k) s =
     subscribe (Teardown (owner p)) (Continue p FromNext k) (emit es s)"
| "suspend p (es, AwaitingTick k) s =
     enqueue (React (Continue p FromTick k) Fulfilled) (emit es s)"

section \<open>The executor\<close>

text \<open>\<^verbatim>\<open>finish\<close>, lines 146-168.\<close>

definition finish :: "nat \<Rightarrow> jsval \<Rightarrow> state \<Rightarrow> state" where
  "finish e error s =
     (if isPromise (result (execs s e)) then
        (if truthy error then settle (Teardown e) (Rejected error) s
         else settle (Teardown e) Fulfilled s)
      else
        (if truthy error then fail e error s
         else succeed e s))"

text \<open>
  \<^verbatim>\<open>run\<close>, lines 68-110. Calling an \<^verbatim>\<open>undefined\<close> \<open>currentFn\<close> is a TypeError, caught at
  line 104 like every synchronous throw. A synchronous function returns
  \<^verbatim>\<open>undefined\<close>; an asynchronous one runs up to its first \<^verbatim>\<open>await\<close> and returns its
  promise, never throwing. A body marked \<open>Sync\<close> that reaches an \<^verbatim>\<open>await\<close> is not
  a JavaScript function; it is given the behaviour of one that throws there.
\<close>

definition call_sync :: "bool \<Rightarrow> stmt list \<Rightarrow> event list \<times> jsval option" where
  "call_sync nx body =
     (case run_body nx body of
        (es, Done) \<Rightarrow> (es, None)
      | (es, Threw v) \<Rightarrow> (es, Some v)
      | (es, AwaitingNext k) \<Rightarrow> (es, Some (SyntaxErrorObj ''await outside async function''))
      | (es, AwaitingTick k) \<Rightarrow> (es, Some (SyntaxErrorObj ''await outside async function'')))"

definition set_result :: "nat \<Rightarrow> pid option \<Rightarrow> state \<Rightarrow> state" where
  "set_result e r s = s\<lparr> execs := (execs s)(e := (execs s e)\<lparr> result := r \<rparr>) \<rparr>"

definition set_failed :: "nat \<Rightarrow> state \<Rightarrow> state" where
  "set_failed e s = s\<lparr> execs := (execs s)(e := (execs s e)\<lparr> asyncMiddlewareFailed := True \<rparr>) \<rparr>"

definition run :: "nat \<Rightarrow> state \<Rightarrow> state" where
  "run e s =
     (case currentFn (execs s e) of
        None \<Rightarrow> fail e (TypeErrorObj ''this.currentFn is not a function'') s
      | Some (Sync body) \<Rightarrow>
          (case call_sync True body of
             (es, Some err) \<Rightarrow> fail e err (emit (MwCall e # es) s)
           | (es, None) \<Rightarrow> enqueue (Microtask e) (emit (MwCall e # es) s))
      | Some (Async body) \<Rightarrow>
          enqueue (Microtask e)
            (subscribe (Result e) (OnResult e)
              (set_result e (Some (Result e))
                (suspend (Result e) (run_body True body) (emit [MwCall e] s)))))"

text \<open>\<^verbatim>\<open>runRemaining\<close>, lines 116-138, up to its \<^verbatim>\<open>await\<close>; what follows the
  \<^verbatim>\<open>await\<close> is the reaction \<open>OnRemaining\<close>.\<close>

definition runRemaining :: "nat \<Rightarrow> state \<Rightarrow> state" where
  "runRemaining e s =
     (if remaining (execs s e) = [] then
        (case apiRouteFn (execs s e) of
           Sync body \<Rightarrow>
             (case call_sync False body of
                (es, Some err) \<Rightarrow> finish e err (emit (RouteCall e # es) s)
              | (es, None) \<Rightarrow>
                  enqueue (React (OnRemaining e) Fulfilled) (emit (RouteCall e # es) s))
         | Async body \<Rightarrow>
             subscribe (RouteResult e) (OnRemaining e)
               (suspend (RouteResult e) (run_body False body) (emit [RouteCall e] s)))
      else
        subscribe (Internal (Suc e)) (OnRemaining e)
          (run (Suc e)
            (s\<lparr> execs := (execs s)
                   (Suc e := new_Executor (remaining (execs s e)) (apiRouteFn (execs s e))) \<rparr>)))"

section \<open>The microtask loop\<close>

fun exec_job :: "job \<Rightarrow> state \<Rightarrow> state" where
  "exec_job (Microtask e) s =
     (if asyncMiddlewareFailed (execs s e) then s else runRemaining e s)"
| "exec_job (React (OnResult e) st) s =
     (case st of
        Rejected err \<Rightarrow> fail e err (set_failed e s)
      | _ \<Rightarrow> succeed e s)"
| "exec_job (React (OnRemaining e) st) s =
     (case st of
        Rejected err \<Rightarrow> finish e err s
      | _ \<Rightarrow> finish e Undefined s)"
| "exec_job (React OnFinal st) s =
     (case st of
        Rejected err \<Rightarrow> settle Final (Rejected err) s
      | _ \<Rightarrow> settle Final Fulfilled s)"
| "exec_job (React (Continue p src k) st) s =
     suspend p
       (run_body (has_next p) (case st of Rejected err \<Rightarrow> Throw err # k | _ \<Rightarrow> k))
       (emit [Resume p src st] s)"

definition step :: "state \<Rightarrow> state" where
  "step s = (case queue s of [] \<Rightarrow> s | j # q \<Rightarrow> exec_job j (s\<lparr>queue := q\<rparr>))"

fun drain :: "nat \<Rightarrow> state \<Rightarrow> state" where
  "drain 0 s = s"
| "drain (Suc n) s = drain n (step s)"

definition init :: state where
  "init = \<lparr> execs = (\<lambda>e. new_Executor [] (Sync [])),
           proms = (\<lambda>p. \<lparr> pst = Pending, reactions = [] \<rparr>),
           queue = [],
           log = [] \<rparr>"

text \<open>\<^verbatim>\<open>finalRouteHandler\<close>, lines 12-14, up to its \<^verbatim>\<open>await\<close>, and the handler built by
  \<^verbatim>\<open>makeMiddlewareExecutor\<close> (lines 6-16) after \<open>n\<close> microtasks.\<close>

definition finalRouteHandler :: "fn list \<Rightarrow> fn \<Rightarrow> state" where
  "finalRouteHandler middlewareFns apiRoute =
     subscribe (Internal 0) OnFinal
       (run 0 (init\<lparr> execs := (execs init)(0 := new_Executor middlewareFns apiRoute) \<rparr>))"

definition makeMiddlewareExecutor :: "fn list \<Rightarrow> fn \<Rightarrow> nat \<Rightarrow> state" where
  "makeMiddlewareExecutor middlewareFns apiRoute n = drain n (finalRouteHandler middlewareFns apiRoute)"

definition outcome :: "state \<Rightarrow> pstate" where
  "outcome s = pst (proms s Final)"

section \<open>Observations of a run\<close>

text \<open>
  A state is sound when a settled promise has handed on all its reactions and its
  settling is in the log.
\<close>

definition sound :: "state \<Rightarrow> bool" where
  "sound s \<longleftrightarrow>
     (\<forall>p. pst (proms s p) \<noteq> Pending \<longrightarrow>
        reactions (proms s p) = [] \<and> Settle p (pst (proms s p)) \<in> set (log s))"

text \<open>
  What every operation of the executor respects: a settled promise keeps its state, the
  log and the queue are continued at the end, a promise that is still pending keeps the
  reactions it had, the reactions of a promise that settles are queued with its new
  state, and soundness is kept. \<open>evolves\<close> is the same without the queue,
  for steps that take a job from its head.
\<close>

definition extends :: "state \<Rightarrow> state \<Rightarrow> bool" where
  "extends s s' \<longleftrightarrow>
     (\<forall>p. pst (proms s p) \<noteq> Pending \<longrightarrow> pst (proms s' p) = pst (proms s p)) \<and>
     (\<exists>es. log s' = log s @ es) \<and>
     (\<exists>js. queue s' = queue s @ js) \<and>
     (\<forall>p. pst (proms s' p) = Pending \<longrightarrow>
        (\<exists>rs. reactions (proms s' p) = reactions (proms s p) @ rs)) \<and>
     (\<forall>p. pst (proms s p) = Pending \<and> pst (proms s' p) \<noteq> Pending \<longrightarrow>
        (\<forall>r\<in>set (reactions (proms s p)). React r (pst (proms s' p)) \<in> set (queue s'))) \<and>
     (sound s \<longrightarrow> sound s')"

definition evolves :: "state \<Rightarrow> state \<Rightarrow> bool" where
  "evolves s s' \<longleftrightarrow>
     (\<forall>p. pst (proms s p) \<noteq> Pending \<longrightarrow> pst (proms s' p) = pst (proms s p)) \<and>
     (\<exists>es. log s' = log s @ es) \<and>
     (\<forall>p. pst (proms s' p) = Pending \<longrightarrow>
        (\<exists>rs. reactions (proms s' p) = reactions (proms s p) @ rs)) \<and>
     (sound s \<longrightarrow> sound s')"

fun is_call :: "event \<Rightarrow> bool" where
  "is_call (MwCall e) = True"
| "is_call (RouteCall e) = True"
| "is_call x = False"

fun is_microtask :: "job \<Rightarrow> bool" where
  "is_microtask (Microtask e) = True"
| "is_microtask j = False"

text \<open>Whether calling a middleware hands control back to \<^verbatim>\<open>run\<close> without a throw
  (line 71): an asynchronous function always does, it returns its promise.\<close>

fun returns_normally :: "fn \<Rightarrow> bool" where
  "returns_normally (Sync b) = (snd (call_sync True b) = None)"
| "returns_normally (Async b) = True"

text \<open>A synchronous middleware that returns without throwing.\<close>

fun sync_ok :: "fn \<Rightarrow> bool" where
  "sync_ok (Sync b) = (snd (call_sync True b) = None)"
| "sync_ok (Async b) = False"

text \<open>The calls of middleware and of the route handler, in the order they were made.\<close>

definition calls_of :: "state \<Rightarrow> event list" where
  "calls_of s = filter is_call (log s)"

definition microtasks_of :: "state \<Rightarrow> job list" where
  "microtasks_of s = filter is_microtask (queue s)"

definition static_of :: "state \<Rightarrow> nat \<Rightarrow> fn option \<times> fn list \<times> fn" where
  "static_of s e = (currentFn (execs s e), remaining (execs s e), apiRouteFn (execs s e))"

text \<open>All the calls a chain can make: each middleware in list order, then the route
  handler, called by the last executor.\<close>

definition full_calls :: "fn list \<Rightarrow> event list" where
  "full_calls ms = map MwCall [0..<length ms] @ [RouteCall (length ms - 1)]"

text \<open>
  The invariant behind the order of calls. After \<open>c\<close> calls, the calls made are the
  first \<open>c\<close> of \<open>full_calls\<close>, the executors created so far hold their part of the
  list, every middleware but the last one called has returned normally, and the only
  microtask of line 98 that can be queued is the one of the last executor created.
\<close>

definition inv_calls :: "fn list \<Rightarrow> fn \<Rightarrow> state \<Rightarrow> nat \<Rightarrow> bool" where
  "inv_calls ms h s c \<longleftrightarrow>
     0 < c \<and> c \<le> Suc (length ms) \<and>
     calls_of s = take c (full_calls ms) \<and>
     (\<forall>e. e < c \<and> e < length ms \<longrightarrow> static_of s e = (Some (ms ! e), drop (Suc e) ms, h)) \<and>
     (\<forall>e. Suc e < c \<longrightarrow> returns_normally (ms ! e)) \<and>
     (microtasks_of s = [] \<or>
      (c \<le> length ms \<and> returns_normally (ms ! (c - 1)) \<and> microtasks_of s = [Microtask (c - 1)]))"

text \<open>The step that makes call number \<open>c\<close>: the microtask of the last executor is at
  the head of the queue and line 99 finds no failure.\<close>

definition advances :: "state \<Rightarrow> nat \<Rightarrow> bool" where
  "advances s c \<longleftrightarrow>
     (\<exists>q. queue s = Microtask (c - 1) # q) \<and> \<not> asyncMiddlewareFailed (execs s (c - 1))"

text \<open>Who awaits the outcome of executor \<open>e\<close>: \<^verbatim>\<open>finalRouteHandler\<close> for the first,
  \<^verbatim>\<open>runRemaining\<close> of the executor before it for the others.\<close>

definition parent :: "nat \<Rightarrow> reaction" where
  "parent e = (case e of 0 \<Rightarrow> OnFinal | Suc d \<Rightarrow> OnRemaining d)"

text \<open>Below a run of synchronous middleware: the executors \<open>0..<d\<close> are pending, each
  awaited by its parent, none with a promise as its result.\<close>

definition waiting :: "state \<Rightarrow> nat \<Rightarrow> bool" where
  "waiting s d \<longleftrightarrow>
     pst (proms s Final) = Pending \<and>
     (\<forall>e<d. pst (proms s (Internal e)) = Pending \<and>
            reactions (proms s (Internal e)) = [parent e] \<and>
            result (execs s e) = None)"

fun fn_body :: "fn \<Rightarrow> stmt list" where
  "fn_body (Sync b) = b"
| "fn_body (Async b) = b"

text \<open>The log of the first \<open>c\<close> calls of a chain of synchronous middleware that return
  normally: each call, followed by the effects of the middleware called.\<close>

definition sync_log :: "fn list \<Rightarrow> nat \<Rightarrow> event list" where
  "sync_log ms c = concat (map (\<lambda>i. MwCall i # fst (call_sync True (fn_body (ms ! i)))) [0..<c])"

definition asc :: "fn list \<Rightarrow> fn \<Rightarrow> state \<Rightarrow> nat \<Rightarrow> bool" where
  "asc ms h s c \<longleftrightarrow>
     inv_calls ms h s c \<and> c \<le> length ms \<and> queue s = [Microtask (c - 1)] \<and>
     \<not> asyncMiddlewareFailed (execs s (c - 1)) \<and> waiting s c \<and>
     (\<forall>e\<ge>c. proms s (Internal e) = \<lparr>pst = Pending, reactions = []\<rparr>) \<and>
     (\<forall>e\<ge>c. proms s (Result e) = \<lparr>pst = Pending, reactions = []\<rparr>) \<and>
     log s = sync_log ms c"

definition desc :: "state \<Rightarrow> nat \<Rightarrow> jsval \<Rightarrow> bool" where
  "desc s d v \<longleftrightarrow> queue s = [React (parent d) (Rejected v)] \<and> waiting s d"

fun is_async :: "fn \<Rightarrow> bool" where
  "is_async (Async b) = True"
| "is_async (Sync b) = False"

definition rem_promise :: "fn list \<Rightarrow> nat \<Rightarrow> pid" where
  "rem_promise ms e = (if Suc e < length ms then Internal (Suc e) else RouteResult e)"

definition rem_outcome :: "fn list \<Rightarrow> fn \<Rightarrow> state \<Rightarrow> nat \<Rightarrow> pstate" where
  "rem_outcome ms h s e =
     (if Suc e < length ms then pst (proms s (Internal (Suc e)))
      else case h of
        Async hb \<Rightarrow> pst (proms s (RouteResult e))
      | Sync hb \<Rightarrow> (case snd (call_sync False hb) of None \<Rightarrow> Fulfilled | Some v \<Rightarrow> Rejected v))"

fun ok_coroutine :: "fn list \<Rightarrow> fn \<Rightarrow> nat \<Rightarrow> pid \<Rightarrow> bool" where
  "ok_coroutine ms h c (Result e) = (e < c \<and> e < length ms \<and> is_async (ms ! e))"
| "ok_coroutine ms h c (RouteResult e) = (Suc e = length ms \<and> length ms < c \<and> is_async h)"
| "ok_coroutine ms h c p = False"

fun ok_reaction :: "fn list \<Rightarrow> fn \<Rightarrow> nat \<Rightarrow> pid \<Rightarrow> reaction \<Rightarrow> bool" where
  "ok_reaction ms h c p (OnResult e) = (p = Result e \<and> e < c \<and> e < length ms \<and> is_async (ms ! e))"
| "ok_reaction ms h c p (OnRemaining e) =
     (Suc e < c \<and> e < length ms \<and> p = rem_promise ms e \<and> (Suc e = length ms \<longrightarrow> is_async h))"
| "ok_reaction ms h c p OnFinal = (p = Internal 0)"
| "ok_reaction ms h c p (Continue q src k) =
     (src = FromNext \<and> ok_coroutine ms h c q \<and> has_next q \<and> p = Teardown (owner q))"

fun ok_job :: "fn list \<Rightarrow> fn \<Rightarrow> state \<Rightarrow> nat \<Rightarrow> job \<Rightarrow> bool" where
  "ok_job ms h s c (Microtask e) = True"
| "ok_job ms h s c (React (OnResult e) st) =
     (st \<noteq> Pending \<and> e < c \<and> e < length ms \<and> is_async (ms ! e) \<and> st = pst (proms s (Result e)))"
| "ok_job ms h s c (React (OnRemaining e) st) =
     (st \<noteq> Pending \<and> Suc e < c \<and> e < length ms \<and> st = rem_outcome ms h s e)"
| "ok_job ms h s c (React OnFinal st) = (st \<noteq> Pending \<and> st = pst (proms s (Internal 0)))"
| "ok_job ms h s c (React (Continue q src k) st) =
     (st \<noteq> Pending \<and> ok_coroutine ms h c q \<and>
      (case src of
         FromNext \<Rightarrow> has_next q \<and> st = pst (proms s (Teardown (owner q)))
       | FromTick \<Rightarrow> st = Fulfilled))"

definition typed :: "fn list \<Rightarrow> fn \<Rightarrow> state \<Rightarrow> nat \<Rightarrow> bool" where
  "typed ms h s c \<longleftrightarrow>
     (\<forall>j\<in>set (queue s). ok_job ms h s c j) \<and>
     (\<forall>p. \<forall>r\<in>set (reactions (proms s p)). ok_reaction ms h c p r)"

text \<open>The invariant of a run.\<close>

definition inv :: "fn list \<Rightarrow> fn \<Rightarrow> state \<Rightarrow> nat \<Rightarrow> bool" where
  "inv ms h s c \<longleftrightarrow> inv_calls ms h s c \<and> typed ms h s c \<and> sound s"

text \<open>\<open>before P Q l\<close>: every event of \<open>l\<close> that satisfies \<open>Q\<close> comes strictly after
  some event that satisfies \<open>P\<close>.\<close>

fun before :: "('a \<Rightarrow> bool) \<Rightarrow> ('a \<Rightarrow> bool) \<Rightarrow> 'a list \<Rightarrow> bool" where
  "before P Q [] = True"
| "before P Q (x # l) = (\<not> Q x \<and> (P x \<or> before P Q l))"

fun is_settle :: "pid \<Rightarrow> event \<Rightarrow> bool" where
  "is_settle p (Settle q st) = (q = p)"
| "is_settle p x = False"

fun is_resume_next :: "nat \<Rightarrow> event \<Rightarrow> bool" where
  "is_resume_next e (Resume q src st) = (q = Result e \<and> src = FromNext)"
| "is_resume_next e x = False"

fun is_eff :: "event \<Rightarrow> bool" where
  "is_eff (Eff n) = True"
| "is_eff x = False"

text \<open>The event by which the remainder of executor \<open>e\<close> is settled: the outcome of the
  next executor, or for the last executor the promise of an asynchronous route handler,
  or the call of a synchronous one (which runs to its end within the call).\<close>

definition rem_done :: "fn list \<Rightarrow> fn \<Rightarrow> nat \<Rightarrow> event \<Rightarrow> bool" where
  "rem_done ms h e x =
     (if Suc e < length ms then is_settle (Internal (Suc e)) x
      else case h of Async hb \<Rightarrow> is_settle (RouteResult e) x | Sync hb \<Rightarrow> x = RouteCall e)"

definition ordered :: "fn list \<Rightarrow> fn \<Rightarrow> event list \<Rightarrow> bool" where
  "ordered ms h l \<longleftrightarrow>
     (\<forall>e. before (rem_done ms h e) (is_settle (Teardown e)) l \<and>
          before (is_settle (Teardown e)) (is_resume_next e) l)"

text \<open>The remainder of executor \<open>e\<close> has begun: the next middleware or the route handler
  has been called.\<close>

definition began :: "nat \<Rightarrow> state \<Rightarrow> bool" where
  "began e s \<longleftrightarrow> MwCall (Suc e) \<in> set (log s) \<or> RouteCall e \<in> set (log s)"

text \<open>The \<open>result\<close> field of every executor created so far says whether its middleware
  is asynchronous.\<close>

definition results_ok :: "fn list \<Rightarrow> state \<Rightarrow> nat \<Rightarrow> bool" where
  "results_ok ms s c \<longleftrightarrow>
     (\<forall>e. e < c \<and> e < length ms \<longrightarrow>
        result (execs s e) = (if is_async (ms ! e) then Some (Result e) else None))"

text \<open>The outcome of an executor with an asynchronous middleware is pending or the state
  of the middleware's promise, and so is the promise of \<^verbatim>\<open>finalRouteHandler\<close> with
  respect to the first executor.\<close>

definition frame_ok :: "fn list \<Rightarrow> state \<Rightarrow> bool" where
  "frame_ok ms s \<longleftrightarrow>
     (\<forall>e. e < length ms \<and> is_async (ms ! e) \<longrightarrow>
        pst (proms s (Internal e)) = Pending \<or>
        pst (proms s (Internal e)) = pst (proms s (Result e))) \<and>
     (pst (proms s Final) = Pending \<or> pst (proms s Final) = pst (proms s (Internal 0)))"

text \<open>A reaction \<open>r\<close> on promise \<open>p\<close> is on its way: registered while \<open>p\<close> is pending,
  and once \<open>p\<close> is settled either queued with the state of \<open>p\<close> or done (\<open>d\<close>).\<close>

definition wire :: "state \<Rightarrow> pid \<Rightarrow> reaction \<Rightarrow> bool \<Rightarrow> bool" where
  "wire s p r d \<longleftrightarrow>
     (pst (proms s p) = Pending \<and> r \<in> set (reactions (proms s p))) \<or>
     (pst (proms s p) \<noteq> Pending \<and> (d \<or> React r (pst (proms s p)) \<in> set (queue s)))"

definition wired :: "fn list \<Rightarrow> state \<Rightarrow> nat \<Rightarrow> bool" where
  "wired ms s c \<longleftrightarrow>
     (\<forall>e. e < c \<and> e < length ms \<and> is_async (ms ! e) \<longrightarrow>
        wire s (Result e) (OnResult e) (pst (proms s (Internal e)) = pst (proms s (Result e)))) \<and>
     wire s (Internal 0) OnFinal (pst (proms s Final) = pst (proms s (Internal 0)))"

definition inv_all :: "fn list \<Rightarrow> fn \<Rightarrow> state \<Rightarrow> nat \<Rightarrow> bool" where
  "inv_all ms h s c \<longleftrightarrow> inv ms h s c \<and> results_ok ms s c \<and> frame_ok ms s \<and> wired ms s c"

text \<open>The promises an executor may settle once \<open>c\<close> calls have been made.\<close>

fun allowed :: "fn list \<Rightarrow> nat \<Rightarrow> pid \<Rightarrow> bool" where
  "allowed ms c (Internal e) = (e < c \<and> e < length ms)"
| "allowed ms c (Teardown e) = (e < c \<and> e < length ms)"
| "allowed ms c (Result e) = (e < c \<and> e < length ms)"
| "allowed ms c (RouteResult e) = (Suc e = length ms \<and> length ms < c)"
| "allowed ms c Final = True"

text \<open>The promises of executors that do not exist yet are pending.\<close>

definition fresh :: "fn list \<Rightarrow> state \<Rightarrow> nat \<Rightarrow> bool" where
  "fresh ms s c \<longleftrightarrow> (\<forall>p. \<not> allowed ms c p \<longrightarrow> pst (proms s p) = Pending)"

text \<open>Whether the call of a middleware leaves the microtask of line 98 free to start the
  remainder: a synchronous middleware must return without a throw, the promise of an
  asynchronous one must not be rejected when the call returns.\<close>

fun starts :: "fn \<Rightarrow> bool" where
  "starts (Sync b) = (snd (call_sync True b) = None)"
| "starts (Async b) = (case snd (run_body True b) of Threw v \<Rightarrow> False | _ \<Rightarrow> True)"

text \<open>No rejection handler of executor \<open>e\<close> is queued ahead of its microtask.\<close>

definition quiet :: "nat \<Rightarrow> job list \<Rightarrow> bool" where
  "quiet e q \<longleftrightarrow> (\<forall>v. React (OnResult e) (Rejected v) \<notin> set (takeWhile (\<lambda>j. j \<noteq> Microtask e) q))"

text \<open>While the last middleware called has not had its remainder started, and its call
  left the way free, the microtask of its executor is queued and will find
  \<^verbatim>\<open>asyncMiddlewareFailed\<close> false.\<close>

definition gate :: "fn list \<Rightarrow> state \<Rightarrow> nat \<Rightarrow> bool" where
  "gate ms s c \<longleftrightarrow>
     (c \<le> length ms \<and> starts (ms ! (c - 1)) \<longrightarrow>
        Microtask (c - 1) \<in> set (queue s) \<and> \<not> asyncMiddlewareFailed (execs s (c - 1)) \<and>
        quiet (c - 1) (queue s))"

text \<open>The invariant of a run, with the gate of line 99.\<close>

definition inv_gate :: "fn list \<Rightarrow> fn \<Rightarrow> state \<Rightarrow> nat \<Rightarrow> bool" where
  "inv_gate ms h s c \<longleftrightarrow> inv_all ms h s c \<and> fresh ms s c \<and> gate ms s c"

text \<open>What the call of a middleware throws, if anything, by the time it returns: the
  synchronous throw of a synchronous function, the rejection of the promise of an
  asynchronous one that fails before its first \<^verbatim>\<open>await\<close>.\<close>

fun thrown :: "fn \<Rightarrow> jsval option" where
  "thrown (Sync b) = snd (call_sync True b)"
| "thrown (Async b) = (case snd (run_body True b) of Threw v \<Rightarrow> Some v | _ \<Rightarrow> None)"

text \<open>The promise that carries it: the outcome of the executor for a synchronous throw
  (line 106), the middleware's own promise for an asynchronous one.\<close>

definition own :: "fn list \<Rightarrow> nat \<Rightarrow> pid" where
  "own ms e = (if is_async (ms ! e) then Result e else Internal e)"

definition stall_val :: "fn list \<Rightarrow> state \<Rightarrow> nat \<Rightarrow> bool" where
  "stall_val ms s c \<longleftrightarrow>
     (\<forall>e v. e < c \<and> e < length ms \<and> thrown (ms ! e) = Some v \<longrightarrow>
        pst (proms s (own ms e)) = Rejected v)"

text \<open>While the last middleware called did not leave the way free, its microtask, if
  there is one, finds \<^verbatim>\<open>asyncMiddlewareFailed\<close> set: the flag is set already, or the
  rejection handler that sets it is queued ahead of the microtask.\<close>

definition blocked :: "fn list \<Rightarrow> state \<Rightarrow> nat \<Rightarrow> bool" where
  "blocked ms s c \<longleftrightarrow>
     (c \<le> length ms \<and> \<not> starts (ms ! (c - 1)) \<longrightarrow>
        asyncMiddlewareFailed (execs s (c - 1)) \<or>
        Microtask (c - 1) \<notin> set (queue s) \<or>
        (\<exists>v. React (OnResult (c - 1)) (Rejected v) \<in>
               set (takeWhile (\<lambda>j. j \<noteq> Microtask (c - 1)) (queue s))))"

text \<open>Every middleware whose remainder has begun left the way free.\<close>

definition passed :: "fn list \<Rightarrow> nat \<Rightarrow> bool" where
  "passed ms c \<longleftrightarrow> (\<forall>e. Suc e < c \<and> e < length ms \<longrightarrow> starts (ms ! e))"

text \<open>The invariant of a run, complete.\<close>

definition inv_run :: "fn list \<Rightarrow> fn \<Rightarrow> state \<Rightarrow> nat \<Rightarrow> bool" where
  "inv_run ms h s c \<longleftrightarrow>
     inv_gate ms h s c \<and> blocked ms s c \<and> passed ms c \<and> stall_val ms s c"



text \<open>The promise that \<^verbatim>\<open>finish\<close> settles for executor \<open>e\<close> (lines 147-167).\<close>

definition fin_promise :: "fn list \<Rightarrow> nat \<Rightarrow> pid" where
  "fin_promise ms e = (if is_async (ms ! e) then Teardown e else Internal e)"

definition finished :: "fn list \<Rightarrow> state \<Rightarrow> nat \<Rightarrow> bool" where
  "finished ms s e \<longleftrightarrow> pst (proms s (fin_promise ms e)) \<noteq> Pending"

text \<open>Once the remainder of executor \<open>e\<close> has begun, the rest of \<^verbatim>\<open>runRemaining\<close> is on
  its way: waiting for the outcome of the remainder, queued, or done.\<close>

definition rem_wire :: "fn list \<Rightarrow> fn \<Rightarrow> state \<Rightarrow> nat \<Rightarrow> bool" where
  "rem_wire ms h s e \<longleftrightarrow>
     (if Suc e < length ms \<or> is_async h
      then wire s (rem_promise ms e) (OnRemaining e) (finished ms s e)
      else finished ms s e \<or> React (OnRemaining e) Fulfilled \<in> set (queue s))"

definition rem_wired :: "fn list \<Rightarrow> fn \<Rightarrow> state \<Rightarrow> nat \<Rightarrow> bool" where
  "rem_wired ms h s c \<longleftrightarrow> (\<forall>e. Suc e < c \<and> e < length ms \<longrightarrow> rem_wire ms h s e)"

text \<open>The suspended rest of the asynchronous function whose promise is \<open>q\<close>: as a queued
  job, or as a reaction waiting on a teardown promise.\<close>

fun is_contr :: "pid \<Rightarrow> reaction \<Rightarrow> bool" where
  "is_contr q (Continue q' src k) = (q' = q)"
| "is_contr q r = False"

fun is_cont :: "pid \<Rightarrow> job \<Rightarrow> bool" where
  "is_cont q (React r st) = is_contr q r"
| "is_cont q j = False"

definition conts :: "state \<Rightarrow> pid \<Rightarrow> nat" where
  "conts s q = length (filter (is_cont q) (queue s)) +
               length (filter (is_contr q) (reactions (proms s (Teardown (owner q)))))"

text \<open>The rest of an asynchronous function waits nowhere but on the teardown promise of
  its executor.\<close>

definition tidy :: "state \<Rightarrow> bool" where
  "tidy s \<longleftrightarrow> (\<forall>p r q. r \<in> set (reactions (proms s p)) \<and> is_contr q r \<longrightarrow> p = Teardown (owner q))"

fun awaiting :: "event list \<times> susp \<Rightarrow> bool" where
  "awaiting (es, AwaitingNext k) = True"
| "awaiting (es, AwaitingTick k) = True"
| "awaiting (es, x) = False"

fun is_co :: "pid \<Rightarrow> bool" where
  "is_co (Result e) = True"
| "is_co (RouteResult e) = True"
| "is_co p = False"

text \<open>An asynchronous function that has been called is either settled or suspended, with
  exactly one rest to run; one that has not been called has none.\<close>

definition kont :: "fn list \<Rightarrow> fn \<Rightarrow> state \<Rightarrow> nat \<Rightarrow> bool" where
  "kont ms h s c \<longleftrightarrow>
     tidy s \<and>
     (\<forall>q. conts s q = (if ok_coroutine ms h c q \<and> pst (proms s q) = Pending then 1 else 0))"

text \<open>What a call of \<^verbatim>\<open>run\<close> leaves suspended.\<close>

definition run_awaits :: "state \<Rightarrow> nat \<Rightarrow> bool" where
  "run_awaits s e \<longleftrightarrow>
     (case currentFn (execs s e) of Some (Async b) \<Rightarrow> awaiting (run_body True b) | _ \<Rightarrow> False)"

text \<open>The function that the remainder of executor \<open>e\<close> starts with, its promise if it is
  asynchronous, and whether its call leaves it suspended.\<close>

definition new_co :: "fn list \<Rightarrow> nat \<Rightarrow> pid" where
  "new_co ms e = (if Suc e < length ms then Result (Suc e) else RouteResult e)"

definition new_fn :: "fn list \<Rightarrow> fn \<Rightarrow> nat \<Rightarrow> fn" where
  "new_fn ms h e = (if Suc e < length ms then ms ! Suc e else h)"

fun fn_awaits :: "bool \<Rightarrow> fn \<Rightarrow> bool" where
  "fn_awaits nx (Async b) = awaiting (run_body nx b)"
| "fn_awaits nx (Sync b) = False"

text \<open>The body a suspended function resumes with: a rejection is thrown at the
  \<^verbatim>\<open>await\<close>.\<close>

fun resume_body :: "pstate \<Rightarrow> stmt list \<Rightarrow> stmt list" where
  "resume_body (Rejected err) k = Throw err # k"
| "resume_body st k = k"

fun job_awaits :: "pid \<Rightarrow> job \<Rightarrow> bool" where
  "job_awaits q (React (Continue q' src k) st) =
     (q' = q \<and> awaiting (run_body (has_next q') (resume_body st k)))"
| "job_awaits q j = False"

text \<open>A bound on the microtasks a run can still take. Every queued job and every waiting
  reaction weighs one, plus, for the rest of an asynchronous function, the size of the
  statements it has yet to run; the microtask of line 98 weighs what the remainder of the
  chain can put in the queue.\<close>

definition wts :: "stmt list \<Rightarrow> nat" where
  "wts k = sum_list (map wt k)"

fun wr :: "reaction \<Rightarrow> nat" where
  "wr (Continue q src k) = 2 + wts k"
| "wr r = 1"

fun wrem :: "fn list \<Rightarrow> fn \<Rightarrow> nat" where
  "wrem [] h = 3 + wts (fn_body h)"
| "wrem (m # r) h = 5 + wts (fn_body m) + wrem r h"

fun wj :: "fn list \<Rightarrow> fn \<Rightarrow> job \<Rightarrow> nat" where
  "wj ms h (React r st) = wr r"
| "wj ms h (Microtask e) = 1 + wrem (drop (Suc e) ms) h"

fun cw :: "event list \<times> susp \<Rightarrow> nat" where
  "cw (es, AwaitingNext k) = 2 + wts k"
| "cw (es, AwaitingTick k) = 2 + wts k"
| "cw (es, x) = 0"

text \<open>The promises that can have reactions waiting, in a chain of less than \<open>N\<close>
  executors.\<close>

definition pids :: "nat \<Rightarrow> pid list" where
  "pids N = Final # concat (map (\<lambda>e. [Internal e, Teardown e, Result e, RouteResult e]) [0..<N])"

fun inp :: "nat \<Rightarrow> pid \<Rightarrow> bool" where
  "inp N Final = True"
| "inp N p = (owner p < N)"

definition rw :: "state \<Rightarrow> pid \<Rightarrow> nat" where
  "rw s p = sum_list (map wr (reactions (proms s p)))"

definition mu :: "fn list \<Rightarrow> fn \<Rightarrow> state \<Rightarrow> nat" where
  "mu ms h s = sum_list (map (wj ms h) (queue s)) + sum_list (map (rw s) (pids (Suc (length ms))))"

definition pot :: "fn list \<Rightarrow> fn \<Rightarrow> state \<Rightarrow> nat \<Rightarrow> bool" where
  "pot ms h s B \<longleftrightarrow>
     (\<forall>p. \<not> inp (Suc (length ms)) p \<longrightarrow> reactions (proms s p) = []) \<and> mu ms h s \<le> B"



text \<open>Everything that holds of every state of a run.\<close>

definition inv_full :: "fn list \<Rightarrow> fn \<Rightarrow> state \<Rightarrow> nat \<Rightarrow> bool" where
  "inv_full ms h s c \<longleftrightarrow> inv_run ms h s c \<and> rem_wired ms h s c \<and> kont ms h s c"

text \<open>The log holds one \<open>Settle\<close> event for every promise that is settled, with its
  state, and none for a promise that is pending.\<close>

definition once :: "state \<Rightarrow> bool" where
  "once s \<longleftrightarrow>
     (\<forall>p. filter (is_settle p) (log s) =
            (if pst (proms s p) = Pending then [] else [Settle p (pst (proms s p))]))"

section \<open>Settled promises stay settled, the log only grows\<close>


lemmas prim_defs = emit_def enqueue_def settle_def subscribe_def set_result_def set_failed_def
  succeed_def fail_def

lemma extends_refl: "extends s s"
  by (simp add: extends_def)

lemma extends_trans:
  assumes a: "extends s s'" and b: "extends s' s''"
  shows "extends s s''"
proof -
  have 1: "\<forall>p. pst (proms s p) \<noteq> Pending \<longrightarrow> pst (proms s'' p) = pst (proms s p)"
    using a b unfolding extends_def by metis
  have 2: "\<exists>es. log s'' = log s @ es"
    using a b unfolding extends_def by (metis append.assoc)
  have 3: "\<exists>js. queue s'' = queue s @ js"
    using a b unfolding extends_def by (metis append.assoc)
  have 4: "\<forall>p. pst (proms s'' p) = Pending \<longrightarrow>
        (\<exists>rs. reactions (proms s'' p) = reactions (proms s p) @ rs)"
    using a b unfolding extends_def by (metis append.assoc)
  have 5: "React r (pst (proms s'' p)) \<in> set (queue s'')"
    if p: "pst (proms s p) = Pending" "pst (proms s'' p) \<noteq> Pending"
      and r: "r \<in> set (reactions (proms s p))" for p r
  proof (cases "pst (proms s' p) = Pending")
    case True
    with a r have "r \<in> set (reactions (proms s' p))" unfolding extends_def by fastforce
    with b True p(2) show ?thesis unfolding extends_def by blast
  next
    case False
    with a p(1) r have "React r (pst (proms s' p)) \<in> set (queue s')"
      unfolding extends_def by blast
    moreover from b False have "pst (proms s'' p) = pst (proms s' p)"
      unfolding extends_def by blast
    moreover from b obtain js where "queue s'' = queue s' @ js"
      unfolding extends_def by blast
    ultimately show ?thesis by simp
  qed
  have 6: "sound s \<longrightarrow> sound s''"
    using a b unfolding extends_def by blast
  from 1 2 3 4 5 6 show ?thesis unfolding extends_def by blast
qed

lemma extends_emit: "extends s (emit es s)"
  by (auto simp: extends_def sound_def emit_def)

lemma extends_enqueue: "extends s (enqueue j s)"
  by (auto simp: extends_def sound_def enqueue_def)

lemma extends_settle: "st \<noteq> Pending \<Longrightarrow> extends s (settle p st s)"
  by (auto simp: extends_def sound_def settle_def)

lemma extends_settled:
  "extends s (settle p Fulfilled s)" "extends s (settle p (Rejected v) s)"
  by (simp_all add: extends_settle)

lemma extends_subscribe: "extends s (subscribe p r s)"
  by (auto simp: extends_def sound_def subscribe_def enqueue_def)

lemma extends_set_result: "extends s (set_result e r s)"
  by (auto simp: extends_def sound_def set_result_def)

lemma extends_set_failed: "extends s (set_failed e s)"
  by (auto simp: extends_def sound_def set_failed_def)

lemma extends_execs: "extends s (s\<lparr>execs := x\<rparr>)"
  by (auto simp: extends_def sound_def)

lemmas extends_prims = extends_emit extends_enqueue extends_settled extends_subscribe
  extends_set_result extends_set_failed extends_execs

lemma extends_suspend: "extends s (suspend p r s)"
proof (cases r)
  case (Pair es su)
  have a: "extends s (emit es s)" by (rule extends_emit)
  show ?thesis
  proof (cases su)
    case Done
    with Pair a show ?thesis by (simp add: extends_trans [OF a extends_settled(1)])
  next
    case (Threw v)
    with Pair a show ?thesis by (simp add: extends_trans [OF a extends_settled(2)])
  next
    case (AwaitingNext k)
    with Pair a show ?thesis by (simp add: extends_trans [OF a extends_subscribe])
  next
    case (AwaitingTick k)
    with Pair a show ?thesis by (simp add: extends_trans [OF a extends_enqueue])
  qed
qed

lemma extends_finish: "extends s (finish e v s)"
  by (simp add: finish_def succeed_def fail_def extends_settled)

lemma extends_run: "extends s (run e s)"
proof -
  have 1: "extends s (emit es s)" for es by (rule extends_emit)
  have 0: "extends s (fail e v s)" for v
    unfolding fail_def by (rule extends_settled)
  have 2: "extends s (fail e v (emit es s))" for es v
    unfolding fail_def by (rule extends_trans [OF 1 extends_settled(2)])
  have 3: "extends s (enqueue j (emit es s))" for es j
    by (rule extends_trans [OF 1 extends_enqueue])
  have 4: "extends s (enqueue j (subscribe p r (set_result e x (suspend q y (emit es s)))))"
    for j p r x q y es
    by (rule extends_trans [OF 1 extends_trans [OF extends_suspend extends_trans
          [OF extends_set_result extends_trans [OF extends_subscribe extends_enqueue]]]])
  show ?thesis
    unfolding run_def
    by (simp add: 2 3 4 0 split: option.splits fn.splits prod.splits)
qed

lemma extends_runRemaining: "extends s (runRemaining e s)"
proof -
  have 1: "extends s (emit es s)" for es by (rule extends_emit)
  have 2: "extends s (finish e v (emit es s))" for es v
    by (rule extends_trans [OF 1 extends_finish])
  have 3: "extends s (enqueue j (emit es s))" for es j
    by (rule extends_trans [OF 1 extends_enqueue])
  have 4: "extends s (subscribe p r (suspend q y (emit es s)))" for p r q y es
    by (rule extends_trans [OF 1 extends_trans [OF extends_suspend extends_subscribe]])
  have 5: "extends s (subscribe p r (run e' (s\<lparr>execs := x\<rparr>)))" for p r e' x
    by (rule extends_trans [OF extends_execs extends_trans [OF extends_run extends_subscribe]])
  show ?thesis
    unfolding runRemaining_def
    by (simp add: 2 3 4 5 split: option.splits fn.splits prod.splits)
qed

lemma extends_exec_job: "extends s (exec_job j s)"
proof (cases j)
  case (Microtask e)
  then show ?thesis by (simp add: extends_refl extends_runRemaining)
next
  case (React r st)
  show ?thesis
  proof (cases r)
    case (OnResult e)
    have "extends s (fail e v (set_failed e s))" for v
      unfolding fail_def by (rule extends_trans [OF extends_set_failed extends_settled(2)])
    with React OnResult show ?thesis
      by (simp add: succeed_def extends_settled split: pstate.splits)
  next
    case (OnRemaining e)
    with React show ?thesis by (simp add: extends_finish split: pstate.splits)
  next
    case OnFinal
    with React show ?thesis by (simp add: extends_settled split: pstate.splits)
  next
    case (Continue p src k)
    with React show ?thesis
      by (simp add: extends_trans [OF extends_emit extends_suspend])
  qed
qed

lemma extends_step: "extends (s\<lparr>queue := tl (queue s)\<rparr>) (step s)"
proof (cases "queue s")
  case Nil
  then show ?thesis by (simp add: step_def extends_def sound_def)
next
  case (Cons j q)
  then show ?thesis by (simp add: step_def extends_exec_job)
qed

lemma extends_evolves: "extends s s' \<Longrightarrow> evolves s s'"
  by (simp add: extends_def evolves_def)

lemma evolves_refl: "evolves s s"
  by (simp add: evolves_def)

lemma evolves_trans: "evolves s s' \<Longrightarrow> evolves s' s'' \<Longrightarrow> evolves s s''"
  unfolding evolves_def
  apply (intro conjI)
     apply metis
    apply (metis append.assoc)
   apply (metis append.assoc)
  apply blast
  done

lemma evolves_step: "evolves s (step s)"
  using extends_evolves [OF extends_step [of s]]
  by (simp add: evolves_def sound_def)

lemma evolves_drain: "evolves s (drain n s)"
  by (induction n arbitrary: s) (auto intro: evolves_refl evolves_trans [OF evolves_step])

lemma evolves_pst: "evolves s s' \<Longrightarrow> pst (proms s p) \<noteq> Pending \<Longrightarrow> pst (proms s' p) = pst (proms s p)"
  by (simp add: evolves_def)

lemma evolves_log: "evolves s s' \<Longrightarrow> x \<in> set (log s) \<Longrightarrow> x \<in> set (log s')"
  by (auto simp: evolves_def)

lemma queue_step: "\<exists>js. queue (step s) = tl (queue s) @ js"
  using extends_step [of s] by (simp add: extends_def)


section \<open>The order of calls\<close>


lemma run_body_events: "run_body nx k = (es, r) \<Longrightarrow> filter is_call es = []"
  by (induction nx k arbitrary: es r rule: run_body.induct)
     (auto split: prod.splits option.splits if_splits)

lemma run_body_events' [simp]: "filter is_call (fst (run_body nx k)) = []"
  by (metis prod.collapse run_body_events)

lemma call_sync_events: "call_sync nx k = (es, r) \<Longrightarrow> filter is_call es = []"
  by (auto simp: call_sync_def split: prod.splits susp.splits dest: run_body_events)

lemma filter_microtask_React [simp]: "filter is_microtask (map (\<lambda>r. React r st) rs) = []"
  by (induction rs) auto

lemma calls_of_prims [simp]:
  "calls_of (emit es s) = calls_of s @ filter is_call es"
  "calls_of (enqueue j s) = calls_of s"
  "calls_of (settle p st s) = calls_of s"
  "calls_of (subscribe p r s) = calls_of s"
  "calls_of (set_result e x s) = calls_of s"
  "calls_of (set_failed e s) = calls_of s"
  "calls_of (s\<lparr>execs := xs\<rparr>) = calls_of s"
  "calls_of (s\<lparr>queue := q\<rparr>) = calls_of s"
  by (simp_all add: calls_of_def prim_defs)

lemma microtasks_of_prims [simp]:
  "microtasks_of (emit es s) = microtasks_of s"
  "microtasks_of (enqueue j s) = microtasks_of s @ (if is_microtask j then [j] else [])"
  "microtasks_of (settle p st s) = microtasks_of s"
  "microtasks_of (subscribe p r s) = microtasks_of s"
  "microtasks_of (set_result e x s) = microtasks_of s"
  "microtasks_of (set_failed e s) = microtasks_of s"
  "microtasks_of (s\<lparr>execs := xs\<rparr>) = microtasks_of s"
  "microtasks_of (s\<lparr>queue := q\<rparr>) = filter is_microtask q"
  by (simp_all add: microtasks_of_def prim_defs)

lemma static_of_prims [simp]:
  "static_of (emit es s) = static_of s"
  "static_of (enqueue j s) = static_of s"
  "static_of (settle p st s) = static_of s"
  "static_of (subscribe p r s) = static_of s"
  "static_of (set_result e x s) = static_of s"
  "static_of (set_failed e s) = static_of s"
  "static_of (s\<lparr>queue := q\<rparr>) = static_of s"
  by (auto simp: static_of_def prim_defs fun_eq_iff)

lemma static_of_new [simp]:
  "static_of (s\<lparr>execs := (execs s)(e := new_Executor ms h)\<rparr>) =
     (static_of s)(e := (case ms of [] \<Rightarrow> None | m # r \<Rightarrow> Some m, case ms of [] \<Rightarrow> [] | m # r \<Rightarrow> r, h))"
  by (auto simp: static_of_def new_Executor_def fun_eq_iff)

lemma suspend_obs [simp]:
  "calls_of (suspend p r s) = calls_of s @ filter is_call (fst r)"
  "microtasks_of (suspend p r s) = microtasks_of s"
  "static_of (suspend p r s) = static_of s"
  by (cases r; cases "snd r"; simp)+

lemma finish_obs [simp]:
  "calls_of (finish e v s) = calls_of s"
  "microtasks_of (finish e v s) = microtasks_of s"
  "static_of (finish e v s) = static_of s"
  by (simp_all add: finish_def succeed_def fail_def)

lemma run_obs:
  "calls_of (run e s) =
     calls_of s @ (case currentFn (execs s e) of None \<Rightarrow> [] | Some m \<Rightarrow> [MwCall e])"
  "microtasks_of (run e s) =
     microtasks_of s @
       (case currentFn (execs s e) of None \<Rightarrow> []
        | Some m \<Rightarrow> if returns_normally m then [Microtask e] else [])"
  "static_of (run e s) = static_of s"
  by (auto simp: run_def fail_def split: option.splits fn.splits prod.splits
      dest: call_sync_events)

lemma new_Executor_fields [simp]:
  "currentFn (new_Executor ms h) = (case ms of [] \<Rightarrow> None | m # r \<Rightarrow> Some m)"
  "remaining (new_Executor ms h) = (case ms of [] \<Rightarrow> [] | m # r \<Rightarrow> r)"
  "apiRouteFn (new_Executor ms h) = h"
  "result (new_Executor ms h) = None"
  "asyncMiddlewareFailed (new_Executor ms h) = False"
  by (simp_all add: new_Executor_def)

lemma runRemaining_obs:
  "calls_of (runRemaining e s) =
     calls_of s @ (if remaining (execs s e) = [] then [RouteCall e] else [MwCall (Suc e)])"
  "microtasks_of (runRemaining e s) =
     microtasks_of s @
       (case remaining (execs s e) of [] \<Rightarrow> []
        | m # r \<Rightarrow> if returns_normally m then [Microtask (Suc e)] else [])"
  "static_of (runRemaining e s) =
     (case remaining (execs s e) of [] \<Rightarrow> static_of s
      | m # r \<Rightarrow> (static_of s)(Suc e := (Some m, r, apiRouteFn (execs s e))))"
proof -
  show "calls_of (runRemaining e s) =
     calls_of s @ (if remaining (execs s e) = [] then [RouteCall e] else [MwCall (Suc e)])"
    by (cases "remaining (execs s e)")
       (auto simp: runRemaining_def run_obs split: fn.splits prod.splits option.splits dest: call_sync_events)
  show "microtasks_of (runRemaining e s) =
     microtasks_of s @
       (case remaining (execs s e) of [] \<Rightarrow> []
        | m # r \<Rightarrow> if returns_normally m then [Microtask (Suc e)] else [])"
    by (cases "remaining (execs s e)")
       (auto simp: runRemaining_def run_obs split: fn.splits prod.splits option.splits)
  show "static_of (runRemaining e s) =
     (case remaining (execs s e) of [] \<Rightarrow> static_of s
      | m # r \<Rightarrow> (static_of s)(Suc e := (Some m, r, apiRouteFn (execs s e))))"
    by (cases "remaining (execs s e)")
       (auto simp: runRemaining_def run_obs split: fn.splits prod.splits option.splits)
qed

lemma exec_job_obs:
  "\<not> is_microtask j \<Longrightarrow> calls_of (exec_job j s) = calls_of s"
  "\<not> is_microtask j \<Longrightarrow> microtasks_of (exec_job j s) = microtasks_of s"
  "\<not> is_microtask j \<Longrightarrow> static_of (exec_job j s) = static_of s"
  by (cases j; cases "case j of React r st \<Rightarrow> r"; simp add: succeed_def fail_def split: pstate.splits)+



lemma full_calls_nth:
  "c < length ms \<Longrightarrow> full_calls ms ! c = MwCall c"
  "full_calls ms ! length ms = RouteCall (length ms - 1)"
  "length (full_calls ms) = Suc (length ms)"
  by (simp_all add: full_calls_def nth_append)

lemma static_of_fields:
  "static_of s e = (a, b, c) \<Longrightarrow> currentFn (execs s e) = a \<and> remaining (execs s e) = b \<and> apiRouteFn (execs s e) = c"
  by (simp add: static_of_def)

lemma inv_calls_init:
  assumes "ms \<noteq> []"
  shows "inv_calls ms h (finalRouteHandler ms h) 1"
proof -
  obtain m r where ms: "ms = m # r" using assms by (cases ms) auto
  let ?s0 = "init\<lparr>execs := (execs init)(0 := new_Executor ms h)\<rparr>"
  have c0: "calls_of init = []" "microtasks_of init = []"
    by (simp_all add: calls_of_def microtasks_of_def init_def)
  have "calls_of (finalRouteHandler ms h) = [MwCall 0]"
    by (simp add: finalRouteHandler_def run_obs c0 ms)
  moreover have "microtasks_of (finalRouteHandler ms h) = (if returns_normally m then [Microtask 0] else [])"
    by (simp add: finalRouteHandler_def run_obs c0 ms)
  moreover have "static_of (finalRouteHandler ms h) 0 = (Some m, r, h)"
    by (simp add: finalRouteHandler_def run_obs ms)
  moreover have "take (Suc 0) (full_calls ms) = [MwCall 0]"
    by (simp add: full_calls_def ms upt_rec)
  ultimately show ?thesis
    by (auto simp: inv_calls_def ms)
qed

lemma inv_calls_step:
  assumes "inv_calls ms h s c"
  shows "if advances s c then inv_calls ms h (step s) (Suc c)
         else inv_calls ms h (step s) c"
proof (cases "queue s")
  case Nil
  with assms show ?thesis by (simp add: step_def advances_def)
next
  case (Cons j q)
  show ?thesis
  proof (cases "is_microtask j")
    case False
    then have na: "\<not> advances s c" using Cons by (auto simp: advances_def)
    have "microtasks_of (s\<lparr>queue := q\<rparr>) = microtasks_of s"
      using False Cons by (simp add: microtasks_of_def)
    with assms False Cons na show ?thesis
      by (simp add: step_def inv_calls_def exec_job_obs)
  next
    case True
    then obtain e where j: "j = Microtask e" by (cases j) auto
    from assms Cons j have mt: "microtasks_of s = [Microtask (c - 1)]" and e: "e = c - 1"
      and q: "filter is_microtask q = []" and cl: "c \<le> length ms"
      and rn: "returns_normally (ms ! (c - 1))"
      by (auto simp: inv_calls_def microtasks_of_def)
    from assms have c0: "0 < c" by (simp add: inv_calls_def)
    with cl e have el: "e < length ms" "e < c" "Suc e = c" by auto
    with assms have st: "static_of s e = (Some (ms ! e), drop (Suc e) ms, h)"
      by (simp add: inv_calls_def)
    note f = static_of_fields [OF st]
    show ?thesis
    proof (cases "asyncMiddlewareFailed (execs s e)")
      case True
      then have "\<not> advances s c" using e by (simp add: advances_def)
      with assms True Cons j q show ?thesis
        by (simp add: step_def inv_calls_def)
    next
      case False
      then have adv: "advances s c" using e Cons j by (simp add: advances_def)
      let ?s = "s\<lparr>queue := q\<rparr>"
      have f': "remaining (execs ?s e) = drop c ms" "apiRouteFn (execs ?s e) = h"
        using f el by simp_all
      have stp: "step s = runRemaining e ?s"
        using Cons j False by (simp add: step_def)
      have tk: "take (Suc c) (full_calls ms) = take c (full_calls ms) @ [full_calls ms ! c]"
        using cl by (simp add: take_Suc_conv_app_nth full_calls_nth)
      from assms have cs: "calls_of s = take c (full_calls ms)" by (simp add: inv_calls_def)
      have rn': "\<forall>e'. Suc e' < Suc c \<longrightarrow> returns_normally (ms ! e')"
      proof (intro allI impI)
        fix e' assume "Suc e' < Suc c"
        then have "Suc e' < c \<or> e' = c - 1" by auto
        with assms rn show "returns_normally (ms ! e')" by (auto simp: inv_calls_def)
      qed
      from assms have sts: "\<forall>e'. e' < c \<and> e' < length ms \<longrightarrow>
          static_of s e' = (Some (ms ! e'), drop (Suc e') ms, h)"
        by (simp add: inv_calls_def)
      show ?thesis
      proof (cases "c = length ms")
        case True
        then have "drop c ms = []" by simp
        with f' have 1: "calls_of (step s) = calls_of s @ [RouteCall e]"
          "microtasks_of (step s) = []" "static_of (step s) = static_of s"
          using q by (simp_all add: stp runRemaining_obs)
        have "full_calls ms ! c = RouteCall e"
          using True el full_calls_nth(2) [of ms] by auto
        with tk cs 1 have 2: "calls_of (step s) = take (Suc c) (full_calls ms)" by simp
        have "inv_calls ms h (step s) (Suc c)"
          unfolding inv_calls_def using 1 2 rn' sts cl True by auto
        with adv show ?thesis by simp
      next
        case False
        with cl have lt: "c < length ms" by simp
        then have d: "drop c ms = ms ! c # drop (Suc c) ms"
          by (simp add: Cons_nth_drop_Suc)
        with f' have 1: "calls_of (step s) = calls_of s @ [MwCall c]"
          "microtasks_of (step s) = (if returns_normally (ms ! c) then [Microtask c] else [])"
          "static_of (step s) = (static_of s)(c := (Some (ms ! c), drop (Suc c) ms, h))"
          using q el by (simp_all add: stp runRemaining_obs)
        have "full_calls ms ! c = MwCall c"
          using lt by (simp add: full_calls_nth)
        with tk cs 1 have 2: "calls_of (step s) = take (Suc c) (full_calls ms)" by simp
        have 3: "\<forall>e'. e' < Suc c \<and> e' < length ms \<longrightarrow>
            static_of (step s) e' = (Some (ms ! e'), drop (Suc e') ms, h)"
          using sts 1(3) by (auto simp: less_Suc_eq)
        have "inv_calls ms h (step s) (Suc c)"
          unfolding inv_calls_def using 1(2) 2 3 rn' lt by auto
        with adv show ?thesis by simp
      qed
    qed
  qed
qed

lemma inv_calls_drain:
  "inv_calls ms h s c \<Longrightarrow> \<exists>c'. c \<le> c' \<and> inv_calls ms h (drain n s) c'"
proof (induction n arbitrary: s c)
  case 0
  then show ?case by auto
next
  case (Suc n)
  from inv_calls_step [OF Suc.prems]
  have "inv_calls ms h (step s) (Suc c) \<or> inv_calls ms h (step s) c"
    by (auto split: if_splits)
  then show ?case
    using Suc.IH by (metis Suc_leD drain.simps(2) order_refl)
qed

lemma inv_calls_reachable:
  "ms \<noteq> [] \<Longrightarrow> \<exists>c. inv_calls ms h (makeMiddlewareExecutor ms h n) c"
  unfolding makeMiddlewareExecutor_def using inv_calls_drain [OF inv_calls_init] by blast


section \<open>Chains that start with synchronous middleware\<close>


lemma parent_simps [simp]: "parent 0 = OnFinal" "parent (Suc d) = OnRemaining d"
  by (simp_all add: parent_def)

lemma asc_facts:
  assumes "asc ms h s c"
  shows "0 < c" "c \<le> length ms" "queue s = [Microtask (c - 1)]"
    "remaining (execs s (c - 1)) = drop c ms" "apiRouteFn (execs s (c - 1)) = h"
    "\<not> asyncMiddlewareFailed (execs s (c - 1))" "advances s c"
proof -
  from assms have i: "inv_calls ms h s c" and 1: "c \<le> length ms"
    and 2: "queue s = [Microtask (c - 1)]" and 3: "\<not> asyncMiddlewareFailed (execs s (c - 1))"
    by (simp_all add: asc_def)
  from i show 0: "0 < c" by (simp add: inv_calls_def)
  from i 0 1 have "static_of s (c - 1) = (Some (ms ! (c - 1)), drop (Suc (c - 1)) ms, h)"
    by (simp add: inv_calls_def)
  from static_of_fields [OF this] 0
  show "remaining (execs s (c - 1)) = drop c ms" "apiRouteFn (execs s (c - 1)) = h"
    by simp_all
  from 1 2 3 show "c \<le> length ms" "queue s = [Microtask (c - 1)]"
    "\<not> asyncMiddlewareFailed (execs s (c - 1))" "advances s c"
    by (simp_all add: advances_def)
qed

lemma asc_step:
  assumes a: "asc ms h s c" and lt: "c < length ms" and ok: "sync_ok (ms ! c)"
  shows "asc ms h (step s) (Suc c)"
proof -
  note f = asc_facts [OF a]
  from ok obtain b es where m: "ms ! c = Sync b" and cs: "call_sync True b = (es, None)"
    by (cases "ms ! c") (auto simp: prod_eq_iff)
  from lt have d: "drop c ms = ms ! c # drop (Suc c) ms" by (simp add: Cons_nth_drop_Suc)
  from a have w: "waiting s c" and fr: "\<forall>e\<ge>c. proms s (Internal e) = \<lparr>pst = Pending, reactions = []\<rparr>"
    by (simp_all add: asc_def)
  from f(1) obtain e where e: "c = Suc e" by (cases c) auto
  let ?x = "new_Executor (drop c ms) h"
  have st: "step s = s\<lparr> queue := [Microtask c],
      execs := (execs s)(c := ?x),
      log := log s @ MwCall c # es,
      proms := (proms s)(Internal c := \<lparr>pst = Pending, reactions = [OnRemaining e]\<rparr>) \<rparr>"
    using f fr e m cs d
    by (simp add: step_def runRemaining_def run_def prim_defs)
  from a have "inv_calls ms h s c" by (simp add: asc_def)
  from inv_calls_step [OF this] f(7) have i: "inv_calls ms h (step s) (Suc c)" by simp
  have w': "waiting (step s) (Suc c)"
    using w fr e d by (auto simp: waiting_def st less_Suc_eq)
  from a have fr2: "\<forall>e\<ge>c. proms s (Result e) = \<lparr>pst = Pending, reactions = []\<rparr>"
    and lg: "log s = sync_log ms c" by (simp_all add: asc_def)
  have lg': "log (step s) = sync_log ms (Suc c)"
    using lg m cs by (simp add: st sync_log_def)
  show ?thesis
    unfolding asc_def using i lt w' fr fr2 lg'
    by (auto simp: st)
qed

lemma init_fields [simp]:
  "queue init = []" "log init = []" "proms init p = \<lparr>pst = Pending, reactions = []\<rparr>"
  "execs init e = new_Executor [] (Sync [])"
  by (simp_all add: init_def)

lemma asc_init:
  assumes ne: "ms \<noteq> []" and ok: "sync_ok (ms ! 0)"
  shows "asc ms h (finalRouteHandler ms h) 1"
proof -
  obtain m r where ms: "ms = m # r" using ne by (cases ms) auto
  from ok ms obtain b es where m: "m = Sync b" and cs: "call_sync True b = (es, None)"
    by (cases m) (auto simp: prod_eq_iff)
  have st: "finalRouteHandler ms h = init\<lparr> queue := [Microtask 0],
      execs := (execs init)(0 := new_Executor ms h),
      log := MwCall 0 # es,
      proms := (proms init)(Internal 0 := \<lparr>pst = Pending, reactions = [OnFinal]\<rparr>) \<rparr>"
    using ms m cs by (simp add: finalRouteHandler_def run_def prim_defs)
  have "waiting (finalRouteHandler ms h) 1"
    unfolding st by (simp add: waiting_def)
  moreover have "queue (finalRouteHandler ms h) = [Microtask (1 - 1)]"
    "\<not> asyncMiddlewareFailed (execs (finalRouteHandler ms h) (1 - 1))"
    "\<forall>e\<ge>1. proms (finalRouteHandler ms h) (Internal e) = \<lparr>pst = Pending, reactions = []\<rparr>"
    "\<forall>e\<ge>1. proms (finalRouteHandler ms h) (Result e) = \<lparr>pst = Pending, reactions = []\<rparr>"
    "log (finalRouteHandler ms h) = sync_log ms 1"
    unfolding st using ms m cs by (simp_all add: sync_log_def)
  ultimately show ?thesis
    unfolding asc_def using inv_calls_init [OF ne, of h] ne
    by (simp add: Suc_le_eq)
qed

lemma asc_drain:
  assumes "0 < k" "k \<le> length ms" "\<forall>i<k. sync_ok (ms ! i)"
  shows "asc ms h (drain (k - 1) (finalRouteHandler ms h)) k"
  using assms
proof (induction k)
  case 0
  then show ?case by simp
next
  case (Suc k)
  show ?case
  proof (cases k)
    case 0
    with Suc.prems have "ms \<noteq> []" "sync_ok (ms ! 0)" by auto
    from asc_init [OF this] 0 show ?thesis by simp
  next
    case (Suc j)
    with Suc.IH Suc.prems have a: "asc ms h (drain j (finalRouteHandler ms h)) k" by simp
    have "drain k s = step (drain j s)" for s
      unfolding Suc by (induction j arbitrary: s) simp_all
    with asc_step [OF a] Suc.prems show ?thesis by simp
  qed
qed

lemma drain_add: "drain (a + b) s = drain b (drain a s)"
  by (induction a arbitrary: s) simp_all

lemma drain_Suc_right: "drain (Suc n) s = step (drain n s)"
  by (induction n arbitrary: s) simp_all

text \<open>The last executor calls the route handler, and nothing is called afterwards.\<close>

lemma asc_calls_complete:
  assumes a: "asc ms h s (length ms)"
  shows "calls_of (drain (Suc n) s) = full_calls ms"
proof -
  from a have i: "inv_calls ms h s (length ms)" by (simp add: asc_def)
  from inv_calls_step [OF i] asc_facts(7) [OF a]
  have "inv_calls ms h (step s) (Suc (length ms))" by simp
  from inv_calls_drain [OF this, of n] obtain c'
    where "Suc (length ms) \<le> c'" "inv_calls ms h (drain n (step s)) c'" by blast
  then show ?thesis
    by (simp add: inv_calls_def full_calls_nth)
qed

text \<open>A synchronous throw below a synchronous prefix, and the way back up.\<close>

lemma asc_throw:
  assumes a: "asc ms h s c" and lt: "c < length ms"
    and m: "ms ! c = Sync b" and cs: "call_sync True b = (es, Some v)"
  shows "desc (step s) c v"
proof -
  note f = asc_facts [OF a]
  from lt have d: "drop c ms = ms ! c # drop (Suc c) ms" by (simp add: Cons_nth_drop_Suc)
  from a have w: "waiting s c" and fr: "\<forall>e\<ge>c. proms s (Internal e) = \<lparr>pst = Pending, reactions = []\<rparr>"
    by (simp_all add: asc_def)
  from f(1) obtain e where e: "c = Suc e" by (cases c) auto
  have st: "step s = s\<lparr> queue := [React (OnRemaining e) (Rejected v)],
      execs := (execs s)(c := new_Executor (drop c ms) h),
      log := log s @ MwCall c # es @ [Settle (Internal c) (Rejected v)],
      proms := (proms s)(Internal c := \<lparr>pst = Rejected v, reactions = []\<rparr>) \<rparr>"
    using f fr e m cs d
    by (simp add: step_def runRemaining_def run_def prim_defs)
  show ?thesis
    using w e by (auto simp: desc_def waiting_def st)
qed

lemma throw_init:
  assumes ne: "ms \<noteq> []" and m: "ms ! 0 = Sync b" and cs: "call_sync True b = (es, Some v)"
  shows "desc (finalRouteHandler ms h) 0 v"
proof -
  obtain m' r where ms: "ms = m' # r" using ne by (cases ms) auto
  have st: "finalRouteHandler ms h = init\<lparr> queue := [React OnFinal (Rejected v)],
      execs := (execs init)(0 := new_Executor ms h),
      log := MwCall 0 # es @ [Settle (Internal 0) (Rejected v)],
      proms := (proms init)(Internal 0 := \<lparr>pst = Rejected v, reactions = []\<rparr>) \<rparr>"
    using ms m cs by (simp add: finalRouteHandler_def run_def prim_defs)
  show ?thesis
    by (simp add: desc_def waiting_def st)
qed

lemma desc_step:
  assumes d: "desc s (Suc d) v" and t: "truthy v"
  shows "desc (step s) d v"
proof -
  from d have q: "queue s = [React (OnRemaining d) (Rejected v)]" and w: "waiting s (Suc d)"
    by (simp_all add: desc_def)
  from w have 1: "pst (proms s (Internal d)) = Pending"
    "reactions (proms s (Internal d)) = [parent d]" "result (execs s d) = None"
    by (simp_all add: waiting_def)
  have st: "step s = s\<lparr> queue := [React (parent d) (Rejected v)],
      proms := (proms s)(Internal d := \<lparr>pst = Rejected v, reactions = []\<rparr>),
      log := log s @ [Settle (Internal d) (Rejected v)] \<rparr>"
    using q t 1 by (simp add: step_def finish_def isPromise_def prim_defs)
  show ?thesis
    using w by (auto simp: desc_def waiting_def st)
qed

lemma desc_final:
  assumes "desc s 0 v"
  shows "outcome (step s) = Rejected v"
  using assms by (simp add: desc_def waiting_def step_def outcome_def prim_defs)

lemma desc_drain:
  assumes "desc s d v" "d = 0 \<or> truthy v"
  shows "outcome (drain (Suc d) s) = Rejected v"
  using assms
proof (induction d arbitrary: s)
  case 0
  then show ?case by (simp add: desc_final)
next
  case (Suc d)
  from desc_step [of s d v] Suc.prems have "desc (step s) d v" by simp
  from Suc.IH [OF this] Suc.prems show ?case by simp
qed

lemma outcome_stable:
  assumes "outcome (drain n s) \<noteq> Pending" "n \<le> m"
  shows "outcome (drain m s) = outcome (drain n s)"
proof -
  from assms(2) obtain d where m: "m = n + d" using le_Suc_ex by blast
  from evolves_drain [of "drain n s" d] assms(1) show ?thesis
    by (simp add: m drain_add evolves_def outcome_def)
qed



lemma mem_calls_of: "is_call x \<Longrightarrow> x \<in> set (log s) \<longleftrightarrow> x \<in> set (calls_of s)"
  by (simp add: calls_of_def)


section \<open>The shape of queued jobs and registered reactions\<close>

lemma ok_coroutine_mono: "ok_coroutine ms h c q \<Longrightarrow> c \<le> c' \<Longrightarrow> ok_coroutine ms h c' q"
  by (cases q) auto

lemma ok_reaction_mono: "ok_reaction ms h c p r \<Longrightarrow> c \<le> c' \<Longrightarrow> ok_reaction ms h c' p r"
  by (cases r) (auto intro: ok_coroutine_mono)

lemma rem_outcome_mono:
  "rem_outcome ms h s e \<noteq> Pending \<Longrightarrow>
   \<forall>p. pst (proms s p) \<noteq> Pending \<longrightarrow> pst (proms s' p) = pst (proms s p) \<Longrightarrow>
   rem_outcome ms h s' e = rem_outcome ms h s e"
  by (auto simp: rem_outcome_def split: fn.splits)

lemma ok_job_mono:
  assumes "ok_job ms h s c j" "c \<le> c'"
    and m: "\<forall>p. pst (proms s p) \<noteq> Pending \<longrightarrow> pst (proms s' p) = pst (proms s p)"
  shows "ok_job ms h s' c' j"
proof (cases j)
  case (Microtask e)
  then show ?thesis by simp
next
  case (React r st)
  show ?thesis
  proof (cases r)
    case (OnResult e)
    with React assms show ?thesis by auto
  next
    case (OnRemaining e)
    with React assms(1) have "rem_outcome ms h s e \<noteq> Pending" by auto
    from rem_outcome_mono [OF this m] React OnRemaining assms(1,2) show ?thesis by auto
  next
    case OnFinal
    with React assms show ?thesis by auto
  next
    case (Continue q src k)
    with React assms(1,2) have "ok_coroutine ms h c' q" by (auto intro: ok_coroutine_mono)
    with React Continue assms show ?thesis by (cases src) auto
  qed
qed

text \<open>A reaction that was rightly registered becomes a rightly queued job when its promise
  settles.\<close>

lemma ok_reaction_job:
  assumes "ok_reaction ms h c p r" "pst (proms s p) = st" "st \<noteq> Pending"
  shows "ok_job ms h s c (React r st)"
  using assms
  by (cases r) (auto simp: rem_outcome_def rem_promise_def split: fn.splits)

lemma ok_job_same:
  "ok_job ms h s c j \<Longrightarrow> proms s' = proms s \<Longrightarrow> c \<le> c' \<Longrightarrow> ok_job ms h s' c' j"
  using ok_job_mono [of ms h s c j c' s'] by simp

lemma typed_cong:
  assumes "typed ms h s c" "proms s' = proms s" "set (queue s') \<subseteq> set (queue s)" "c \<le> c'"
  shows "typed ms h s' c'"
  unfolding typed_def
proof (intro conjI ballI allI)
  fix j assume "j \<in> set (queue s')"
  with assms(1,3) have "ok_job ms h s c j" unfolding typed_def by blast
  from ok_job_same [OF this assms(2,4)] show "ok_job ms h s' c' j" .
next
  fix p r assume "r \<in> set (reactions (proms s' p))"
  with assms(1,2) have "ok_reaction ms h c p r" unfolding typed_def by simp
  from ok_reaction_mono [OF this assms(4)] show "ok_reaction ms h c' p r" .
qed

lemma typed_mono: "typed ms h s c \<Longrightarrow> c \<le> c' \<Longrightarrow> typed ms h s c'"
  using typed_cong [of ms h s c s c'] by simp

lemma typed_emit: "typed ms h s c \<Longrightarrow> typed ms h (emit es s) c"
  using typed_cong [of ms h s c "emit es s" c] by (simp add: emit_def)

lemma typed_set_result: "typed ms h s c \<Longrightarrow> typed ms h (set_result e x s) c"
  using typed_cong [of ms h s c "set_result e x s" c] by (simp add: set_result_def)

lemma typed_set_failed: "typed ms h s c \<Longrightarrow> typed ms h (set_failed e s) c"
  using typed_cong [of ms h s c "set_failed e s" c] by (simp add: set_failed_def)

lemma typed_execs: "typed ms h s c \<Longrightarrow> typed ms h (s\<lparr>execs := x\<rparr>) c"
  using typed_cong [of ms h s c "s\<lparr>execs := x\<rparr>" c] by simp

lemma typed_pop: "typed ms h s c \<Longrightarrow> queue s = j # q \<Longrightarrow> typed ms h (s\<lparr>queue := q\<rparr>) c"
  using typed_cong [of ms h s c "s\<lparr>queue := q\<rparr>" c] by auto

lemma typed_head: "typed ms h s c \<Longrightarrow> queue s = j # q \<Longrightarrow> ok_job ms h (s\<lparr>queue := q\<rparr>) c j"
  using ok_job_same [of ms h s c j "s\<lparr>queue := q\<rparr>" c] unfolding typed_def by simp

lemma typed_enqueue:
  assumes "typed ms h s c" "ok_job ms h s c j"
  shows "typed ms h (enqueue j s) c"
  unfolding typed_def
proof (intro conjI ballI allI)
  fix j' assume "j' \<in> set (queue (enqueue j s))"
  with assms have "ok_job ms h s c j'" unfolding typed_def by (auto simp: enqueue_def)
  then show "ok_job ms h (enqueue j s) c j'"
    using ok_job_same [of ms h s c j' "enqueue j s" c] by (simp add: enqueue_def)
next
  fix p r assume "r \<in> set (reactions (proms (enqueue j s) p))"
  with assms(1) show "ok_reaction ms h c p r" unfolding typed_def by (simp add: enqueue_def)
qed

lemma typed_settle:
  assumes "typed ms h s c" "st \<noteq> Pending"
  shows "typed ms h (settle p st s) c"
proof (cases "pst (proms s p) = Pending")
  case False
  with assms show ?thesis by (simp add: settle_def)
next
  case True
  let ?s = "settle p st s"
  have m: "\<forall>q. pst (proms s q) \<noteq> Pending \<longrightarrow> pst (proms ?s q) = pst (proms s q)"
    using extends_settle [OF assms(2), of s p] by (simp add: extends_def)
  have st: "pst (proms ?s p) = st" using True by (simp add: settle_def)
  have q: "queue ?s = queue s @ map (\<lambda>r. React r st) (reactions (proms s p))"
    using True by (simp add: settle_def)
  have "ok_job ms h ?s c j" if "j \<in> set (queue ?s)" for j
  proof (cases "j \<in> set (queue s)")
    case True
    with assms(1) have "ok_job ms h s c j" unfolding typed_def by blast
    from ok_job_mono [OF this order_refl m] show ?thesis .
  next
    case False
    with that q obtain r where "r \<in> set (reactions (proms s p))" "j = React r st" by auto
    with assms st show ?thesis unfolding typed_def by (auto intro: ok_reaction_job)
  qed
  moreover have "ok_reaction ms h c q r" if "r \<in> set (reactions (proms ?s q))" for q r
    using that assms(1) True unfolding typed_def by (auto simp: settle_def split: if_splits)
  ultimately show ?thesis unfolding typed_def by blast
qed

lemma typed_subscribe:
  assumes "typed ms h s c" "ok_reaction ms h c p r"
  shows "typed ms h (subscribe p r s) c"
proof (cases "pst (proms s p) = Pending")
  case True
  let ?s = "subscribe p r s"
  have 1: "queue ?s = queue s" "\<forall>q. pst (proms ?s q) = pst (proms s q)"
    "\<forall>q. set (reactions (proms ?s q)) \<subseteq> set (reactions (proms s q)) \<union> (if q = p then {r} else {})"
    using True by (auto simp: subscribe_def)
  show ?thesis
    unfolding typed_def
  proof (intro conjI ballI allI)
    fix j assume "j \<in> set (queue ?s)"
    with assms 1 have "ok_job ms h s c j" unfolding typed_def by simp
    from ok_job_mono [OF this order_refl, of ?s] 1 show "ok_job ms h ?s c j" by simp
  next
    fix q r' assume "r' \<in> set (reactions (proms ?s q))"
    with 1(3) have "r' \<in> set (reactions (proms s q)) \<or> (q = p \<and> r' = r)"
      by (auto split: if_splits)
    with assms show "ok_reaction ms h c q r'" unfolding typed_def by auto
  qed
next
  case False
  with assms ok_reaction_job [OF assms(2), of s] show ?thesis
    by (simp add: subscribe_def typed_enqueue)
qed

lemma run_body_no_next: "run_body False k \<noteq> (es, AwaitingNext k')"
  by (induction "False" k arbitrary: es rule: run_body.induct)
     (auto split: prod.splits option.splits)

lemma typed_suspend:
  assumes t: "typed ms h s c" and q: "ok_coroutine ms h c q"
    and n: "has_next q \<or> (\<forall>k. snd r \<noteq> AwaitingNext k)"
  shows "typed ms h (suspend q r s) c"
proof (cases r)
  case (Pair es su)
  note e = typed_emit [OF t, of es]
  show ?thesis
  proof (cases su)
    case Done
    with Pair show ?thesis by (simp add: typed_settle [OF e])
  next
    case (Threw v)
    with Pair show ?thesis by (simp add: typed_settle [OF e])
  next
    case (AwaitingNext k)
    with Pair n have "has_next q" by auto
    with q have "ok_reaction ms h c (Teardown (owner q)) (Continue q FromNext k)" by simp
    from typed_subscribe [OF e this] Pair AwaitingNext show ?thesis by simp
  next
    case (AwaitingTick k)
    from q have "ok_job ms h (emit es s) c (React (Continue q FromTick k) Fulfilled)" by simp
    from typed_enqueue [OF e this] Pair AwaitingTick show ?thesis by simp
  qed
qed

lemma typed_finish: "typed ms h s c \<Longrightarrow> typed ms h (finish e v s) c"
  by (simp add: finish_def succeed_def fail_def typed_settle)

lemma typed_run:
  assumes t: "typed ms h s c" and e: "e < c"
    and m: "\<And>m. currentFn (execs s e) = Some m \<Longrightarrow> e < length ms \<and> m = ms ! e"
  shows "typed ms h (run e s) c"
proof (cases "currentFn (execs s e)")
  case None
  with t show ?thesis by (simp add: run_def fail_def typed_settle)
next
  case (Some f)
  show ?thesis
  proof (cases f)
    case (Sync b)
    obtain es r where c: "call_sync True b = (es, r)" by (cases "call_sync True b")
    note t' = typed_emit [OF t, of "MwCall e # es"]
    have "typed ms h (enqueue (Microtask e) (emit (MwCall e # es) s)) c"
      by (rule typed_enqueue [OF t']) simp
    with Some Sync c t' show ?thesis
      by (cases r) (simp_all add: run_def fail_def typed_settle)
  next
    case (Async b)
    from m [OF Some] Async have me: "e < length ms" "ms ! e = Async b" by simp_all
    with e have oc: "ok_coroutine ms h c (Result e)" by simp
    from me e have orr: "ok_reaction ms h c (Result e) (OnResult e)" by simp
    note 1 = typed_suspend [OF typed_emit [OF t, of "[MwCall e]"] oc, of "run_body True b"]
    have 2: "typed ms h (set_result e (Some (Result e))
        (suspend (Result e) (run_body True b) (emit [MwCall e] s))) c"
      by (rule typed_set_result) (simp add: 1)
    have "typed ms h (enqueue (Microtask e) (subscribe (Result e) (OnResult e)
        (set_result e (Some (Result e))
          (suspend (Result e) (run_body True b) (emit [MwCall e] s))))) c"
      by (rule typed_enqueue [OF typed_subscribe [OF 2 orr]]) simp
    with Some Async show ?thesis by (simp add: run_def)
  qed
qed

lemma typed_runRemaining:
  assumes t: "typed ms h s c" and e: "Suc e = c" "e < length ms"
    and st: "remaining (execs s e) = drop (Suc e) ms" "apiRouteFn (execs s e) = h"
  shows "typed ms h (runRemaining e s) (Suc c)"
proof (cases "Suc e < length ms")
  case False
  with e have n: "Suc e = length ms" by simp
  with st have r: "remaining (execs s e) = []" by simp
  note t1 = typed_mono [OF t, of "Suc c"]
  show ?thesis
  proof (cases h)
    case (Sync hb)
    obtain es r' where c: "call_sync False hb = (es, r')" by (cases "call_sync False hb")
    have t2: "typed ms h (emit (RouteCall e # es) s) (Suc c)"
      by (rule typed_emit) (simp add: t1)
    show ?thesis
    proof (cases r')
      case None
      with c Sync n e have "ok_job ms h (emit (RouteCall e # es) s) (Suc c)
          (React (OnRemaining e) Fulfilled)"
        by (simp add: rem_outcome_def)
      from typed_enqueue [OF t2 this] Sync c None r st show ?thesis
        by (simp add: runRemaining_def)
    next
      case (Some v)
      with typed_finish [OF t2] Sync c r st show ?thesis
        by (simp add: runRemaining_def)
    qed
  next
    case (Async hb)
    with n e have oc: "ok_coroutine ms h (Suc c) (RouteResult e)" by auto
    have nn: "has_next (RouteResult e) \<or> (\<forall>k. snd (run_body False hb) \<noteq> AwaitingNext k)"
      using run_body_no_next [of hb "fst (run_body False hb)"] by (metis prod.collapse)
    have t2: "typed ms h (emit [RouteCall e] s) (Suc c)"
      by (rule typed_emit) (simp add: t1)
    note t3 = typed_suspend [OF t2 oc nn]
    from Async n e have "ok_reaction ms h (Suc c) (RouteResult e) (OnRemaining e)"
      by (simp add: rem_promise_def)
    from typed_subscribe [OF t3 this] Async r st show ?thesis
      by (simp add: runRemaining_def)
  qed
next
  case True
  then have d: "drop (Suc e) ms = ms ! Suc e # drop (Suc (Suc e)) ms"
    by (simp add: Cons_nth_drop_Suc)
  let ?s1 = "s\<lparr>execs := (execs s)(Suc e := new_Executor (remaining (execs s e)) (apiRouteFn (execs s e)))\<rparr>"
  have t1: "typed ms h ?s1 (Suc c)"
    by (rule typed_execs) (simp add: typed_mono [OF t])
  have "typed ms h (run (Suc e) ?s1) (Suc c)"
  proof (rule typed_run [OF t1])
    show "Suc e < Suc c" using e by simp
    show "Suc e < length ms \<and> m = ms ! Suc e" if "currentFn (execs ?s1 (Suc e)) = Some m" for m
      using that True st d by simp
  qed
  moreover from True e have "ok_reaction ms h (Suc c) (Internal (Suc e)) (OnRemaining e)"
    by (simp add: rem_promise_def)
  ultimately have "typed ms h (subscribe (Internal (Suc e)) (OnRemaining e) (run (Suc e) ?s1)) (Suc c)"
    by (rule typed_subscribe)
  with st d show ?thesis by (simp add: runRemaining_def)
qed

lemma typed_exec_job:
  assumes t: "typed ms h s c" and j: "ok_job ms h s c j" and n: "\<not> is_microtask j"
  shows "typed ms h (exec_job j s) c"
proof (cases j)
  case (Microtask e)
  with n show ?thesis by simp
next
  case (React r st)
  show ?thesis
  proof (cases r)
    case (OnResult e)
    have "typed ms h (fail e v (set_failed e s)) c" for v
      unfolding fail_def by (rule typed_settle [OF typed_set_failed [OF t]]) simp
    with React OnResult t show ?thesis
      by (simp add: succeed_def typed_settle split: pstate.splits)
  next
    case (OnRemaining e)
    with React t show ?thesis by (simp add: typed_finish split: pstate.splits)
  next
    case OnFinal
    with React t show ?thesis by (simp add: typed_settle split: pstate.splits)
  next
    case (Continue q src k)
    with React j have oc: "ok_coroutine ms h c q" by simp
    let ?k = "case st of Rejected err \<Rightarrow> Throw err # k | _ \<Rightarrow> k"
    have nn: "has_next q \<or> (\<forall>k'. snd (run_body (has_next q) ?k) \<noteq> AwaitingNext k')"
      using run_body_no_next [of ?k "fst (run_body False ?k)"] by (metis prod.collapse)
    from typed_suspend [OF typed_emit [OF t] oc nn] React Continue show ?thesis by simp
  qed
qed

lemma sound_init: "sound (finalRouteHandler ms h)"
proof -
  let ?s0 = "init\<lparr>execs := (execs init)(0 := new_Executor ms h)\<rparr>"
  have "sound ?s0" by (simp add: sound_def)
  moreover have "extends ?s0 (finalRouteHandler ms h)"
    unfolding finalRouteHandler_def by (rule extends_trans [OF extends_run extends_subscribe])
  ultimately show ?thesis by (simp add: extends_def)
qed

lemma typed_init:
  assumes "ms \<noteq> []"
  shows "typed ms h (finalRouteHandler ms h) 1"
proof -
  obtain m r where ms: "ms = m # r" using assms by (cases ms) auto
  let ?s0 = "init\<lparr>execs := (execs init)(0 := new_Executor ms h)\<rparr>"
  have "typed ms h ?s0 1" by (simp add: typed_def)
  then have "typed ms h (run 0 ?s0) 1"
    by (rule typed_run) (simp_all add: ms)
  then show ?thesis
    unfolding finalRouteHandler_def by (rule typed_subscribe) simp
qed

lemma inv_init: "ms \<noteq> [] \<Longrightarrow> inv ms h (finalRouteHandler ms h) 1"
  unfolding inv_def using inv_calls_init [of ms h] typed_init [of ms h] sound_init [of ms h]
  by blast

lemma typed_step:
  assumes i: "inv_calls ms h s c" and t: "typed ms h s c"
  shows "typed ms h (step s) (if advances s c then Suc c else c)"
proof (cases "queue s")
  case Nil
  with t show ?thesis by (simp add: step_def advances_def)
next
  case (Cons j q)
  note t' = typed_pop [OF t Cons] and hj = typed_head [OF t Cons]
  show ?thesis
  proof (cases "is_microtask j")
    case False
    then have "\<not> advances s c" using Cons by (auto simp: advances_def)
    with typed_exec_job [OF t' hj False] Cons show ?thesis by (simp add: step_def)
  next
    case True
    then obtain e where j: "j = Microtask e" by (cases j) auto
    from i Cons j have e: "e = c - 1" and cl: "c \<le> length ms" and c0: "0 < c"
      by (auto simp: inv_calls_def microtasks_of_def)
    then have el: "Suc e = c" "e < length ms" by auto
    with i have "static_of s e = (Some (ms ! e), drop (Suc e) ms, h)"
      by (simp add: inv_calls_def)
    from static_of_fields [OF this]
    have f: "remaining (execs (s\<lparr>queue := q\<rparr>) e) = drop (Suc e) ms"
      "apiRouteFn (execs (s\<lparr>queue := q\<rparr>) e) = h" by simp_all
    show ?thesis
    proof (cases "asyncMiddlewareFailed (execs s e)")
      case True
      with e have "\<not> advances s c" by (simp add: advances_def)
      with t' True Cons j show ?thesis by (simp add: step_def)
    next
      case False
      with e Cons j have "advances s c" by (simp add: advances_def)
      with typed_runRemaining [OF t' el f] False Cons j show ?thesis
        by (simp add: step_def)
    qed
  qed
qed

lemma inv_step:
  assumes "inv ms h s c"
  shows "inv ms h (step s) (if advances s c then Suc c else c)"
proof -
  from assms have "sound (step s)"
    using evolves_step [of s] by (simp add: inv_def evolves_def)
  with assms inv_calls_step [of ms h s c] typed_step [of ms h s c] show ?thesis
    by (simp add: inv_def)
qed

lemma inv_drain: "inv ms h s c \<Longrightarrow> \<exists>c'. c \<le> c' \<and> inv ms h (drain n s) c'"
proof (induction n arbitrary: s c)
  case 0
  then show ?case by auto
next
  case (Suc n)
  let ?c = "if advances s c then Suc c else c"
  from inv_step [OF Suc.prems] have "inv ms h (step s) ?c" .
  from Suc.IH [OF this] obtain c' where "?c \<le> c'" "inv ms h (drain n (step s)) c'" by blast
  then show ?case by (auto split: if_splits intro: exI [of _ c'])
qed

lemma inv_reachable: "ms \<noteq> [] \<Longrightarrow> \<exists>c. inv ms h (makeMiddlewareExecutor ms h n) c"
  unfolding makeMiddlewareExecutor_def using inv_drain [OF inv_init] by blast

section \<open>Teardown comes after the remainder\<close>

lemma before_append:
  "before P Q (l @ l') \<longleftrightarrow> before P Q l \<and> ((\<exists>x\<in>set l. P x) \<or> before P Q l')"
  by (induction l) auto

lemma before_none: "\<forall>x\<in>set l. \<not> Q x \<Longrightarrow> before P Q l"
  by (induction l) auto

lemma run_body_effs: "run_body nx k = (es, r) \<Longrightarrow> \<forall>x\<in>set es. is_eff x"
  by (induction nx k arbitrary: es r rule: run_body.induct)
     (auto split: prod.splits option.splits if_splits)

lemma call_sync_effs: "call_sync nx k = (es, r) \<Longrightarrow> \<forall>x\<in>set es. is_eff x"
  by (auto simp: call_sync_def split: prod.splits susp.splits dest: run_body_effs)

lemma eff_not_marked: "is_eff x \<Longrightarrow> \<not> is_settle p x \<and> \<not> is_resume_next e x"
  by (cases x) auto

text \<open>Events that are neither the settling of a teardown promise nor the resumption of a
  middleware after \<^verbatim>\<open>await next()\<close> keep the order.\<close>

lemma ordered_emit:
  assumes "ordered ms h (log s)"
    and "\<forall>x\<in>set es. \<forall>e. \<not> is_settle (Teardown e) x \<and> \<not> is_resume_next e x"
  shows "ordered ms h (log (emit es s))"
  using assms unfolding ordered_def emit_def
  by (simp add: before_append before_none)

lemma ordered_effs:
  "ordered ms h (log s) \<Longrightarrow> \<forall>x\<in>set es. is_eff x \<Longrightarrow> ordered ms h (log (emit es s))"
  by (rule ordered_emit) (auto dest: eff_not_marked)

lemma ordered_settle:
  assumes "ordered ms h (log s)"
    and "\<And>e. p = Teardown e \<Longrightarrow> \<exists>x\<in>set (log s). rem_done ms h e x"
  shows "ordered ms h (log (settle p st s))"
proof (cases "pst (proms s p) = Pending")
  case False
  with assms show ?thesis by (simp add: settle_def)
next
  case True
  have "before (rem_done ms h e) (is_settle (Teardown e)) (log s @ [Settle p st])" for e
    using assms by (auto simp: ordered_def before_append)
  moreover have "before (is_settle (Teardown e)) (is_resume_next e) (log s @ [Settle p st])" for e
    using assms by (auto simp: ordered_def before_append)
  ultimately show ?thesis using True by (simp add: ordered_def settle_def)
qed

lemma ordered_settle_other:
  "ordered ms h (log s) \<Longrightarrow> ordered ms h (log (settle (Internal e) st s))"
  "ordered ms h (log s) \<Longrightarrow> ordered ms h (log (settle (Result e) st s))"
  "ordered ms h (log s) \<Longrightarrow> ordered ms h (log (settle (RouteResult e) st s))"
  "ordered ms h (log s) \<Longrightarrow> ordered ms h (log (settle Final st s))"
  by (rule ordered_settle; simp)+

lemma ordered_settle_teardown:
  "ordered ms h (log s) \<Longrightarrow> \<exists>x\<in>set (log s). rem_done ms h e x \<Longrightarrow>
   ordered ms h (log (settle (Teardown e) st s))"
  by (rule ordered_settle) simp_all

lemma settle_in_log: "Settle p st \<in> set l \<Longrightarrow> \<exists>x\<in>set l. is_settle p x"
  by force

lemma run_body_effs': "\<forall>x\<in>set (fst (run_body nx k)). is_eff x"
  by (metis prod.collapse run_body_effs)

lemma ordered_same: "ordered ms h (log s) \<Longrightarrow> log s' = log s \<Longrightarrow> ordered ms h (log s')"
  by simp

lemma log_prims [simp]:
  "log (enqueue j s) = log s"
  "log (subscribe p r s) = log s"
  "log (set_result e x s) = log s"
  "log (set_failed e s) = log s"
  by (simp_all add: prim_defs)

lemma ordered_suspend:
  assumes o: "ordered ms h (log s)" and q: "\<And>e. q \<noteq> Teardown e"
    and es: "\<forall>x\<in>set (fst r). is_eff x"
  shows "ordered ms h (log (suspend q r s))"
proof (cases r)
  case (Pair es su)
  with es have e: "ordered ms h (log (emit es s))" by (simp add: ordered_effs [OF o])
  show ?thesis
  proof (cases su)
    case Done
    with Pair show ?thesis using ordered_settle [OF e, of q] q by simp
  next
    case (Threw v)
    with Pair show ?thesis using ordered_settle [OF e, of q] q by simp
  next
    case (AwaitingNext k)
    with Pair e show ?thesis by simp
  next
    case (AwaitingTick k)
    with Pair e show ?thesis by simp
  qed
qed

lemma ordered_suspend_run_body:
  "ordered ms h (log s) \<Longrightarrow> (\<And>e. q \<noteq> Teardown e) \<Longrightarrow>
   ordered ms h (log (suspend q (run_body nx k) s))"
  by (rule ordered_suspend) (simp_all add: run_body_effs')

lemma ordered_finish:
  assumes "ordered ms h (log s)" "\<exists>x\<in>set (log s). rem_done ms h e x"
  shows "ordered ms h (log (finish e v s))"
  using assms by (simp add: finish_def succeed_def fail_def ordered_settle_teardown ordered_settle_other)

lemma ordered_run:
  assumes o: "ordered ms h (log s)"
  shows "ordered ms h (log (run e s))"
proof (cases "currentFn (execs s e)")
  case None
  with o show ?thesis by (simp add: run_def fail_def ordered_settle_other)
next
  case (Some f)
  show ?thesis
  proof (cases f)
    case (Sync b)
    obtain es r where c: "call_sync True b = (es, r)" by (cases "call_sync True b")
    have "ordered ms h (log (emit (MwCall e # es) s))"
      by (rule ordered_emit [OF o]) (use call_sync_effs [OF c] in \<open>auto dest: eff_not_marked\<close>)
    with Some Sync c show ?thesis
      by (cases r) (simp_all add: run_def fail_def ordered_settle_other)
  next
    case (Async b)
    have "ordered ms h (log (emit [MwCall e] s))"
      by (rule ordered_emit [OF o]) simp
    from ordered_suspend_run_body [OF this, of "Result e" True b] Some Async show ?thesis
      by (simp add: run_def)
  qed
qed

lemma ordered_runRemaining:
  assumes o: "ordered ms h (log s)"
    and l: "remaining (execs s e) = [] \<Longrightarrow> Suc e = length ms \<and> apiRouteFn (execs s e) = h"
  shows "ordered ms h (log (runRemaining e s))"
proof (cases "remaining (execs s e) = []")
  case False
  with ordered_run [of ms h _ "Suc e"] o show ?thesis
    by (simp add: runRemaining_def)
next
  case True
  note n = l [OF True]
  show ?thesis
  proof (cases h)
    case (Sync hb)
    obtain es r where c: "call_sync False hb = (es, r)" by (cases "call_sync False hb")
    have 1: "ordered ms h (log (emit (RouteCall e # es) s))"
      by (rule ordered_emit [OF o]) (use call_sync_effs [OF c] in \<open>auto dest: eff_not_marked\<close>)
    have "rem_done ms h e (RouteCall e)" using n Sync by (simp add: rem_done_def)
    then have "\<exists>x\<in>set (log (emit (RouteCall e # es) s)). rem_done ms h e x"
      by (auto simp: emit_def)
    from ordered_finish [OF 1 this] 1 True n Sync c show ?thesis
      by (cases r) (simp_all add: runRemaining_def)
  next
    case (Async hb)
    have "ordered ms h (log (emit [RouteCall e] s))"
      by (rule ordered_emit [OF o]) simp
    from ordered_suspend_run_body [OF this, of "RouteResult e" False hb] True n Async
    show ?thesis by (simp add: runRemaining_def)
  qed
qed

text \<open>A queued \<open>OnRemaining\<close> job finds the settling of its remainder in the log, and a
  queued resumption after \<^verbatim>\<open>await next()\<close> the settling of the teardown promise.\<close>

lemma inv_rem_done:
  assumes i: "inv ms h s c" and j: "ok_job ms h s c (React (OnRemaining e) st)"
  shows "\<exists>x\<in>set (log s). rem_done ms h e x"
proof (cases "Suc e < length ms")
  case True
  with j have "pst (proms s (Internal (Suc e))) \<noteq> Pending" by (auto simp: rem_outcome_def)
  with i have "Settle (Internal (Suc e)) (pst (proms s (Internal (Suc e)))) \<in> set (log s)"
    by (simp add: inv_def sound_def)
  with True show ?thesis by (simp add: rem_done_def settle_in_log)
next
  case False
  with j have n: "Suc e = length ms" "length ms < c" by auto
  show ?thesis
  proof (cases h)
    case (Async hb)
    with j False have "pst (proms s (RouteResult e)) \<noteq> Pending" by (auto simp: rem_outcome_def)
    with i have "Settle (RouteResult e) (pst (proms s (RouteResult e))) \<in> set (log s)"
      by (simp add: inv_def sound_def)
    with False Async show ?thesis by (simp add: rem_done_def settle_in_log)
  next
    case (Sync hb)
    from i n have "calls_of s = full_calls ms" by (simp add: inv_def inv_calls_def full_calls_nth)
    then have "RouteCall e \<in> set (calls_of s)" using n by (auto simp: full_calls_def)
    then have "RouteCall e \<in> set (log s)" by (simp add: calls_of_def)
    with False Sync show ?thesis by (auto simp: rem_done_def)
  qed
qed

lemma ordered_exec_job:
  assumes i: "inv ms h s c" and o: "ordered ms h (log s)"
    and j: "ok_job ms h s c j" and n: "\<not> is_microtask j"
  shows "ordered ms h (log (exec_job j s))"
proof (cases j)
  case (Microtask e)
  with n show ?thesis by simp
next
  case (React r st)
  show ?thesis
  proof (cases r)
    case (OnResult e)
    have "ordered ms h (log (set_failed e s))" using o by simp
    with React OnResult o show ?thesis
      by (simp add: succeed_def fail_def ordered_settle_other split: pstate.splits)
  next
    case (OnRemaining e)
    from j React OnRemaining have "ok_job ms h s c (React (OnRemaining e) st)" by blast
    from inv_rem_done [OF i this] have "\<exists>x\<in>set (log s). rem_done ms h e x" .
    with React OnRemaining o show ?thesis
      by (simp add: ordered_finish split: pstate.splits)
  next
    case OnFinal
    with React o show ?thesis by (simp add: ordered_settle_other split: pstate.splits)
  next
    case (Continue q src k)
    with React j have oc: "ok_coroutine ms h c q" by simp
    then have q: "q \<noteq> Teardown e" for e by (cases q) auto
    have "ordered ms h (log (emit [Resume q src st] s))"
    proof (cases src)
      case FromTick
      show ?thesis by (rule ordered_emit [OF o]) (simp add: FromTick)
    next
      case FromNext
      with React Continue j oc obtain e where e: "q = Result e"
        "st = pst (proms s (Teardown e))" "st \<noteq> Pending"
        by (cases q) auto
      with i have t: "Settle (Teardown e) st \<in> set (log s)" by (simp add: inv_def sound_def)
      have "before (rem_done ms h e') (is_settle (Teardown e')) (log s @ [Resume q src st])" for e'
        using o by (auto simp: ordered_def before_append)
      moreover have "before (is_settle (Teardown e')) (is_resume_next e') (log s @ [Resume q src st])" for e'
      proof (cases "e' = e")
        case True
        have "is_settle (Teardown e) (Settle (Teardown e) st)" by simp
        with t True o show ?thesis unfolding ordered_def before_append by blast
      next
        case False
        with o e show ?thesis by (auto simp: ordered_def before_append)
      qed
      ultimately show ?thesis by (simp add: ordered_def emit_def)
    qed
    from ordered_suspend_run_body [OF this q] React Continue show ?thesis by simp
  qed
qed

lemma inv_pop: "inv ms h s c \<Longrightarrow> queue s = j # q \<Longrightarrow> \<not> is_microtask j \<Longrightarrow> inv ms h (s\<lparr>queue := q\<rparr>) c"
  using typed_pop [of ms h s c j q]
  by (simp add: inv_def sound_def inv_calls_def calls_of_def static_of_def microtasks_of_def)

lemma ordered_step:
  assumes i: "inv ms h s c" and o: "ordered ms h (log s)"
  shows "ordered ms h (log (step s))"
proof (cases "queue s")
  case Nil
  with o show ?thesis by (simp add: step_def)
next
  case (Cons j q)
  let ?s = "s\<lparr>queue := q\<rparr>"
  from i have t: "typed ms h s c" and ic: "inv_calls ms h s c" by (simp_all add: inv_def)
  note hj = typed_head [OF t Cons]
  have o': "ordered ms h (log ?s)" using o by simp
  show ?thesis
  proof (cases "is_microtask j")
    case False
    from ordered_exec_job [OF inv_pop [OF i Cons False] o' hj False] Cons show ?thesis
      by (simp add: step_def)
  next
    case True
    then obtain e where j: "j = Microtask e" by (cases j) auto
    from ic Cons j have e: "e = c - 1" and cl: "c \<le> length ms" and c0: "0 < c"
      by (auto simp: inv_calls_def microtasks_of_def)
    then have el: "Suc e = c" "e < length ms" by auto
    with ic have "static_of s e = (Some (ms ! e), drop (Suc e) ms, h)"
      by (simp add: inv_calls_def)
    from static_of_fields [OF this]
    have f: "remaining (execs ?s e) = drop (Suc e) ms" "apiRouteFn (execs ?s e) = h" by simp_all
    have "ordered ms h (log (runRemaining e ?s))"
      by (rule ordered_runRemaining [OF o']) (use f el in auto)
    with o' Cons j show ?thesis by (simp add: step_def)
  qed
qed

lemma ordered_init: "ordered ms h (log (finalRouteHandler ms h))"
proof -
  let ?s0 = "init\<lparr>execs := (execs init)(0 := new_Executor ms h)\<rparr>"
  have "ordered ms h (log ?s0)" by (simp add: ordered_def)
  from ordered_run [OF this, of 0] show ?thesis by (simp add: finalRouteHandler_def)
qed

lemma ordered_drain:
  "inv ms h s c \<Longrightarrow> ordered ms h (log s) \<Longrightarrow> ordered ms h (log (drain n s))"
proof (induction n arbitrary: s c)
  case 0
  then show ?case by simp
next
  case (Suc n)
  from Suc.IH [OF inv_step [OF Suc.prems(1)] ordered_step [OF Suc.prems]] show ?case by simp
qed

lemma ordered_reachable:
  "ms \<noteq> [] \<Longrightarrow> ordered ms h (log (makeMiddlewareExecutor ms h n))"
  unfolding makeMiddlewareExecutor_def by (rule ordered_drain [OF inv_init ordered_init])

section \<open>When the remainder begins\<close>

lemma began_calls: "began e s \<longleftrightarrow> MwCall (Suc e) \<in> set (calls_of s) \<or> RouteCall e \<in> set (calls_of s)"
  by (simp add: began_def calls_of_def)

lemma take_full_calls:
  "c \<le> length ms \<Longrightarrow> take c (full_calls ms) = map MwCall [0..<c]"
  by (simp add: full_calls_def take_map)

lemma inv_calls_began:
  assumes i: "inv_calls ms h s c" and ne: "ms \<noteq> []"
  shows "began e s \<longleftrightarrow> Suc e < c \<and> e < length ms"
proof (cases "c \<le> length ms")
  case True
  with i have "calls_of s = map MwCall [0..<c]" by (simp add: inv_calls_def take_full_calls)
  with True show ?thesis by (auto simp: began_calls)
next
  case False
  with i have c: "c = Suc (length ms)" by (simp add: inv_calls_def)
  with i have "calls_of s = full_calls ms" by (simp add: inv_calls_def full_calls_nth)
  with c ne show ?thesis by (auto simp: began_calls full_calls_def)
qed


text \<open>An asynchronous first middleware whose promise is already rejected when its call
  returns: the rejection handler of line 90 is queued before the microtask of line 98.\<close>

lemma imm_reject_run:
  assumes ms: "ms = Async b # rest" and rb: "run_body True b = (es, Threw v)"
  shows "drain 3 (finalRouteHandler ms h) = init\<lparr>
      queue := [],
      execs := (execs init)(0 := (new_Executor ms h)\<lparr>result := Some (Result 0), asyncMiddlewareFailed := True\<rparr>),
      log := MwCall 0 # es @ [Settle (Result 0) (Rejected v), Settle (Internal 0) (Rejected v),
               Settle Final (Rejected v)],
      proms := (proms init)(Result 0 := \<lparr>pst = Rejected v, reactions = []\<rparr>,
                 Internal 0 := \<lparr>pst = Rejected v, reactions = []\<rparr>,
                 Final := \<lparr>pst = Rejected v, reactions = []\<rparr>) \<rparr>"
  using assms
  by (simp add: finalRouteHandler_def run_def prim_defs step_def eval_nat_numeral
      runRemaining_def fun_upd_twist)

lemma drain_idle: "queue s = [] \<Longrightarrow> drain n s = s"
  by (induction n) (simp_all add: step_def)

lemma began_mono:
  assumes "began e (drain n s)" "n \<le> m"
  shows "began e (drain m s)"
proof -
  from assms(2) obtain d where m: "m = n + d" using le_Suc_ex by blast
  from evolves_drain [of "drain n s" d] assms(1) show ?thesis
    unfolding m drain_add began_def by (auto dest: evolves_log)
qed

lemma imm_reject_outcome:
  assumes ms: "ms = Async b # rest" and rb: "run_body True b = (es, Threw v)"
  shows "\<not> began 0 (makeMiddlewareExecutor ms h n)"
    and "3 \<le> n \<Longrightarrow> outcome (makeMiddlewareExecutor ms h n) = Rejected v"
proof -
  let ?s0 = "finalRouteHandler ms h"
  note s3 = imm_reject_run [OF assms, of h]
  have q: "queue (drain 3 ?s0) = []" by (simp add: s3)
  have nb: "\<not> began 0 (drain 3 ?s0)"
    using run_body_effs [OF rb] by (auto simp: s3 began_def)
  have o: "outcome (drain 3 ?s0) = Rejected v" by (simp add: s3 outcome_def)
  have late: "drain n ?s0 = drain 3 ?s0" if "3 \<le> n" for n
  proof -
    from that have "3 + (n - 3) = n" by simp
    with drain_add [of 3 "n - 3" ?s0] have "drain n ?s0 = drain (n - 3) (drain 3 ?s0)"
      by (simp only:)
    also have "\<dots> = drain 3 ?s0" by (rule drain_idle [OF q])
    finally show ?thesis .
  qed
  show "\<not> began 0 (makeMiddlewareExecutor ms h n)"
  proof (cases "3 \<le> n")
    case True
    from late [OF True] nb show ?thesis by (simp add: makeMiddlewareExecutor_def)
  next
    case False
    then have "n \<le> 3" by simp
    with began_mono [of 0 n ?s0 3] nb show ?thesis
      unfolding makeMiddlewareExecutor_def by blast
  qed
  show "outcome (makeMiddlewareExecutor ms h n) = Rejected v" if "3 \<le> n"
    using late [OF that] o by (simp add: makeMiddlewareExecutor_def)
qed

text \<open>Statements that run to their end do not change what follows them.\<close>

lemma unwind_append:
  "unwind (k @ l) = (case unwind k of Some k' \<Rightarrow> Some (k' @ l) | None \<Rightarrow> unwind l)"
  by (induction k rule: unwind.induct) auto

lemma run_body_append:
  "run_body nx pre = (es, Done) \<Longrightarrow>
   run_body nx (pre @ k) = (es @ fst (run_body nx k), snd (run_body nx k))"
proof (induction nx pre arbitrary: es rule: run_body.induct)
  case (1 nx)
  then show ?case by simp
next
  case (2 nx n k')
  obtain es' r where e: "run_body nx k' = (es', r)" by (cases "run_body nx k'")
  with 2 show ?case by simp
next
  case (3 nx c k')
  then show ?case by simp
next
  case (4 nx b c k')
  then show ?case by simp
next
  case (5 nx v k')
  show ?case
  proof (cases "unwind k'")
    case None
    with 5 show ?thesis by simp
  next
    case (Some a)
    with 5 show ?thesis by (simp add: unwind_append)
  qed
next
  case (6 nx v k')
  show ?case
  proof (cases "unwind k'")
    case None
    with 6 show ?thesis by (simp split: if_splits)
  next
    case (Some a)
    with 6 show ?thesis by (simp add: unwind_append split: if_splits)
  qed
next
  case (7 nx v k')
  show ?case
  proof (cases "unwind k'")
    case None
    with 7 show ?thesis by (simp split: if_splits)
  next
    case (Some a)
    with 7 show ?thesis by (simp add: unwind_append split: if_splits)
  qed
next
  case (8 nx k')
  then show ?case by simp
qed

lemma next_error_uncaught:
  assumes "run_body True pre = (es, Done)" "truthy v" "unwind post = None"
  shows "run_body True (pre @ Next v # post) = (es, Threw v)"
  using run_body_append [OF assms(1), of "Next v # post"] assms(2,3) by simp

text \<open>A synchronous throw at position \<open>k\<close>: nothing after it is called.\<close>

lemma sync_throw_calls:
  assumes k: "k < length ms" and m: "\<not> returns_normally (ms ! k)"
  shows "\<exists>c\<le>Suc k. calls_of (makeMiddlewareExecutor ms h n) = map MwCall [0..<c]"
proof -
  let ?s = "makeMiddlewareExecutor ms h n"
  from k have ne: "ms \<noteq> []" by auto
  from inv_calls_reachable [OF ne] obtain c where i: "inv_calls ms h ?s c" by blast
  from i have "Suc k < c \<longrightarrow> returns_normally (ms ! k)"
    unfolding inv_calls_def by blast
  with m have c: "c \<le> Suc k" by (meson not_less)
  with k i have "calls_of ?s = map MwCall [0..<c]" by (simp add: inv_calls_def take_full_calls)
  with c show ?thesis by blast
qed

lemma sync_throw_outcome:
  assumes k: "k < length ms" and m: "ms ! k = Sync b" and cs: "call_sync True b = (es, Some v)"
    and pre: "\<forall>i<k. sync_ok (ms ! i)" and t: "k = 0 \<or> truthy v" and n: "2 * k + 1 \<le> n"
  shows "outcome (makeMiddlewareExecutor ms h n) = Rejected v"
proof -
  let ?s0 = "finalRouteHandler ms h"
  from k have ne: "ms \<noteq> []" by auto
  have d: "desc (drain k ?s0) k v"
  proof (cases k)
    case 0
    with throw_init [OF ne _ cs, of h] m show ?thesis by simp
  next
    case (Suc j)
    with k pre have "asc ms h (drain (k - 1) ?s0) k"
      by (intro asc_drain) auto
    from asc_throw [OF this k m cs] have "desc (step (drain (k - 1) ?s0)) k v" .
    with Suc show ?thesis
      by (simp only: drain_Suc_right diff_Suc_1)
  qed
  have "drain (2 * k + 1) ?s0 = drain (Suc k) (drain k ?s0)"
    using drain_add [of k "Suc k" ?s0] by (simp add: mult_2)
  with desc_drain [OF d t] have o: "outcome (drain (2 * k + 1) ?s0) = Rejected v"
    by simp
  from outcome_stable [of "2 * k + 1" ?s0 n] o n show ?thesis
    by (simp add: makeMiddlewareExecutor_def)
qed

section \<open>The outcome of a frame with an asynchronous middleware\<close>

lemma execs_prims [simp]:
  "execs (emit es s) = execs s"
  "execs (enqueue j s) = execs s"
  "execs (settle p st s) = execs s"
  "execs (subscribe p r s) = execs s"
  by (simp_all add: prim_defs)

lemma execs_suspend [simp]: "execs (suspend q r s) = execs s"
  by (cases r; cases "snd r") auto

lemma execs_finish [simp]: "execs (finish e v s) = execs s"
  by (simp add: finish_def succeed_def fail_def)

lemma result_run:
  "result (execs (run e s) e') =
     (if e' = e \<and> (\<exists>b. currentFn (execs s e) = Some (Async b)) then Some (Result e)
      else result (execs s e'))"
  by (auto simp: run_def fail_def set_result_def split: option.splits fn.splits prod.splits)

lemma result_runRemaining:
  "result (execs (runRemaining e s) e') =
     (case remaining (execs s e) of
        [] \<Rightarrow> result (execs s e')
      | m # r \<Rightarrow> if e' = Suc e then (if is_async m then Some (Result (Suc e)) else None)
                 else result (execs s e'))"
  by (cases "remaining (execs s e)"; cases "hd (remaining (execs s e))")
     (auto simp: runRemaining_def result_run split: fn.splits prod.splits option.splits)

lemma result_exec_job:
  "\<not> is_microtask j \<Longrightarrow> result (execs (exec_job j s) e') = result (execs s e')"
  by (cases j; cases "case j of React r st \<Rightarrow> r")
     (auto simp: succeed_def fail_def set_failed_def split: pstate.splits)

lemma results_ok_step:
  assumes i: "inv_calls ms h s c" and r: "results_ok ms s c"
  shows "results_ok ms (step s) (if advances s c then Suc c else c)"
proof (cases "queue s")
  case Nil
  with r show ?thesis by (simp add: step_def advances_def)
next
  case (Cons j q)
  show ?thesis
  proof (cases "is_microtask j")
    case False
    then have "\<not> advances s c" using Cons by (auto simp: advances_def)
    with r False Cons show ?thesis by (simp add: step_def results_ok_def result_exec_job)
  next
    case True
    then obtain e where j: "j = Microtask e" by (cases j) auto
    from i Cons j have e: "e = c - 1" and cl: "c \<le> length ms" and c0: "0 < c"
      by (auto simp: inv_calls_def microtasks_of_def)
    then have el: "Suc e = c" "e < length ms" by auto
    with i have "static_of s e = (Some (ms ! e), drop (Suc e) ms, h)"
      by (simp add: inv_calls_def)
    from static_of_fields [OF this]
    have f: "remaining (execs (s\<lparr>queue := q\<rparr>) e) = drop (Suc e) ms" by simp
    show ?thesis
    proof (cases "asyncMiddlewareFailed (execs s e)")
      case True
      with e have "\<not> advances s c" by (simp add: advances_def)
      with r True Cons j show ?thesis by (simp add: step_def results_ok_def)
    next
      case False
      with e Cons j have a: "advances s c" by (simp add: advances_def)
      have st: "step s = runRemaining e (s\<lparr>queue := q\<rparr>)"
        using Cons j False by (simp add: step_def)
      show ?thesis
      proof (cases "Suc e < length ms")
        case True
        then have "drop (Suc e) ms = ms ! Suc e # drop (Suc (Suc e)) ms"
          by (simp add: Cons_nth_drop_Suc)
        with a r f el show ?thesis
          by (auto simp: st results_ok_def result_runRemaining less_Suc_eq)
      next
        case False
        with el have "drop (Suc e) ms = []" by simp
        with a r f el False show ?thesis
          by (auto simp: st results_ok_def result_runRemaining less_Suc_eq)
      qed
    qed
  qed
qed

lemma results_ok_init: "results_ok ms (finalRouteHandler ms h) 1"
  by (cases ms; cases "hd ms")
     (auto simp: results_ok_def finalRouteHandler_def result_run)

lemma frame_ok_same:
  "frame_ok ms s \<Longrightarrow> \<forall>p. pst (proms s' p) = pst (proms s p) \<Longrightarrow> frame_ok ms s'"
  by (simp add: frame_ok_def)

lemma frame_ok_prims:
  "frame_ok ms s \<Longrightarrow> frame_ok ms (emit es s)"
  "frame_ok ms s \<Longrightarrow> frame_ok ms (enqueue j s)"
  "frame_ok ms s \<Longrightarrow> frame_ok ms (subscribe p r s)"
  "frame_ok ms s \<Longrightarrow> frame_ok ms (set_result e x s)"
  "frame_ok ms s \<Longrightarrow> frame_ok ms (set_failed e s)"
  "frame_ok ms s \<Longrightarrow> frame_ok ms (s\<lparr>execs := xs\<rparr>)"
  "frame_ok ms s \<Longrightarrow> frame_ok ms (s\<lparr>queue := q\<rparr>)"
  by (erule frame_ok_same, simp add: prim_defs)+

lemma frame_ok_settle:
  assumes f: "frame_ok ms s" and st: "st \<noteq> Pending"
    and i: "\<And>e. p = Internal e \<Longrightarrow> e < length ms \<Longrightarrow> is_async (ms ! e) \<Longrightarrow>
              st = pst (proms s (Result e))"
    and fin: "p = Final \<Longrightarrow> st = pst (proms s (Internal 0))"
  shows "frame_ok ms (settle p st s)"
proof (cases "pst (proms s p) = Pending")
  case False
  with f show ?thesis by (simp add: settle_def)
next
  case True
  have ps: "pst (proms (settle p st s) q) = (if q = p then st else pst (proms s q))" for q
    using True by (simp add: settle_def)
  show ?thesis
    unfolding frame_ok_def
  proof (intro conjI allI impI)
    fix e assume e: "e < length ms \<and> is_async (ms ! e)"
    with f have a: "pst (proms s (Internal e)) = Pending \<or>
        pst (proms s (Internal e)) = pst (proms s (Result e))" by (simp add: frame_ok_def)
    show "pst (proms (settle p st s) (Internal e)) = Pending \<or>
        pst (proms (settle p st s) (Internal e)) = pst (proms (settle p st s) (Result e))"
    proof (cases "p = Internal e")
      case True
      with i e have "st = pst (proms s (Result e))" by simp
      moreover have "pst (proms (settle p st s) (Internal e)) = st"
        using ps [of "Internal e"] True by simp
      moreover have "pst (proms (settle p st s) (Result e)) = pst (proms s (Result e))"
        using ps [of "Result e"] True by simp
      ultimately show ?thesis by simp
    next
      case False
      with a True show ?thesis by (auto simp: ps)
    qed
  next
    from f have a: "pst (proms s Final) = Pending \<or> pst (proms s Final) = pst (proms s (Internal 0))"
      by (simp add: frame_ok_def)
    show "pst (proms (settle p st s) Final) = Pending \<or>
        pst (proms (settle p st s) Final) = pst (proms (settle p st s) (Internal 0))"
    proof (cases "p = Final")
      case True
      with fin have "st = pst (proms s (Internal 0))" by simp
      moreover have "pst (proms (settle p st s) Final) = st"
        using ps [of Final] True by simp
      moreover have "pst (proms (settle p st s) (Internal 0)) = pst (proms s (Internal 0))"
        using ps [of "Internal 0"] True by simp
      ultimately show ?thesis by simp
    next
      case False
      with a True show ?thesis by (auto simp: ps)
    qed
  qed
qed

lemma frame_ok_suspend:
  assumes f: "frame_ok ms s" and q: "ok_coroutine ms h c q"
  shows "frame_ok ms (suspend q r s)"
proof -
  from q have n: "q \<noteq> Final" "\<And>e. q \<noteq> Internal e" by (cases q; simp)+
  have 1: "frame_ok ms (settle q st (emit es s))" if "st \<noteq> Pending" for st es
    by (rule frame_ok_settle [OF frame_ok_prims(1) [OF f] that]) (use n in auto)
  show ?thesis
    by (cases r; cases "snd r") (auto simp: 1 frame_ok_prims f)
qed

lemma frame_ok_finish:
  assumes f: "frame_ok ms s"
    and r: "e < length ms \<Longrightarrow> is_async (ms ! e) \<Longrightarrow> result (execs s e) \<noteq> None"
  shows "frame_ok ms (finish e v s)"
proof (cases "isPromise (result (execs s e))")
  case True
  have "frame_ok ms (settle (Teardown e) st s)" if "st \<noteq> Pending" for st
    by (rule frame_ok_settle [OF f that]) auto
  with True show ?thesis by (simp add: finish_def)
next
  case False
  with r have n: "\<not> (e < length ms \<and> is_async (ms ! e))" by (auto simp: isPromise_def)
  have "frame_ok ms (settle (Internal e) st s)" if "st \<noteq> Pending" for st
    by (rule frame_ok_settle [OF f that]) (use n in auto)
  with False show ?thesis by (simp add: finish_def succeed_def fail_def)
qed

lemma frame_ok_run:
  assumes f: "frame_ok ms s"
    and m: "\<And>m. currentFn (execs s e) = Some m \<Longrightarrow> e < length ms \<and> m = ms ! e"
    and n: "currentFn (execs s e) = None \<Longrightarrow> length ms \<le> e"
  shows "frame_ok ms (run e s)"
proof (cases "currentFn (execs s e)")
  case None
  have "frame_ok ms (settle (Internal e) st s)" if "st \<noteq> Pending" for st
    by (rule frame_ok_settle [OF f that]) (use n [OF None] in auto)
  with None show ?thesis by (simp add: run_def fail_def)
next
  case (Some fn)
  note me = m [OF Some]
  show ?thesis
  proof (cases fn)
    case (Sync b)
    obtain es r where c: "call_sync True b = (es, r)" by (cases "call_sync True b")
    from me Sync have "ms ! e = Sync b" by simp
    then have na: "\<not> is_async (ms ! e)" by simp
    have "frame_ok ms (settle (Internal e) st (emit es' s))" if "st \<noteq> Pending" for st es'
      by (rule frame_ok_settle [OF frame_ok_prims(1) [OF f] that]) (use na in auto)
    with Some Sync c f show ?thesis
      by (cases r) (simp_all add: run_def fail_def frame_ok_prims)
  next
    case (Async b)
    from me Async have "ms ! e = Async b" by simp
    with me have "ok_coroutine ms (Sync []) (Suc e) (Result e)" by simp
    from frame_ok_suspend [OF frame_ok_prims(1) [OF f] this] Some Async show ?thesis
      by (simp add: run_def frame_ok_prims)
  qed
qed

lemma frame_ok_runRemaining:
  assumes f: "frame_ok ms s" and e: "e < length ms"
    and st: "remaining (execs s e) = drop (Suc e) ms"
    and r: "is_async (ms ! e) \<Longrightarrow> result (execs s e) \<noteq> None"
  shows "frame_ok ms (runRemaining e s)"
proof (cases "Suc e < length ms")
  case True
  then have d: "drop (Suc e) ms = ms ! Suc e # drop (Suc (Suc e)) ms"
    by (simp add: Cons_nth_drop_Suc)
  let ?s1 = "s\<lparr>execs := (execs s)(Suc e := new_Executor (remaining (execs s e)) (apiRouteFn (execs s e)))\<rparr>"
  have "frame_ok ms (run (Suc e) ?s1)"
    by (rule frame_ok_run [OF frame_ok_prims(6) [OF f]]) (use True st d in auto)
  with st d show ?thesis by (simp add: runRemaining_def frame_ok_prims)
next
  case False
  with e st have r0: "remaining (execs s e) = []" "Suc e = length ms" by auto
  show ?thesis
  proof (cases "apiRouteFn (execs s e)")
    case (Sync hb)
    obtain es r' where c: "call_sync False hb = (es, r')" by (cases "call_sync False hb")
    have "frame_ok ms (finish e v (emit es' s))" for v es'
      by (rule frame_ok_finish [OF frame_ok_prims(1) [OF f]]) (use r in auto)
    with r0 Sync c f show ?thesis
      by (cases r') (simp_all add: runRemaining_def frame_ok_prims)
  next
    case (Async hb)
    from r0 have "ok_coroutine ms (Async hb) (Suc (length ms)) (RouteResult e)" by simp
    from frame_ok_suspend [OF frame_ok_prims(1) [OF f] this] r0 Async show ?thesis
      by (simp add: runRemaining_def frame_ok_prims)
  qed
qed

lemma frame_ok_exec_job:
  assumes f: "frame_ok ms s" and j: "ok_job ms h s c j" and n: "\<not> is_microtask j"
    and r: "results_ok ms s c"
  shows "frame_ok ms (exec_job j s)"
proof (cases j)
  case (Microtask e)
  with n show ?thesis by simp
next
  case (React r' st)
  show ?thesis
  proof (cases r')
    case (OnResult e)
    with React j have e: "st \<noteq> Pending" "st = pst (proms s (Result e))" by auto
    have 1: "frame_ok ms (settle (Internal e) st s)"
      by (rule frame_ok_settle [OF f e(1)]) (use e in auto)
    have 2: "frame_ok ms (settle (Internal e) st (set_failed e s))"
      by (rule frame_ok_settle [OF frame_ok_prims(5) [OF f] e(1)]) (use e in \<open>auto simp: set_failed_def\<close>)
    from React OnResult e(1) 1 2 show ?thesis
      by (cases st) (simp_all add: succeed_def fail_def)
  next
    case (OnRemaining e)
    with React j have "Suc e < c" "e < length ms" by auto
    with r have "is_async (ms ! e) \<Longrightarrow> result (execs s e) \<noteq> None"
      by (simp add: results_ok_def)
    from frame_ok_finish [OF f this] React OnRemaining show ?thesis
      by (simp split: pstate.splits)
  next
    case OnFinal
    with React j have e: "st \<noteq> Pending" "st = pst (proms s (Internal 0))" by auto
    have "frame_ok ms (settle Final st s)"
      by (rule frame_ok_settle [OF f e(1)]) (use e in auto)
    with React OnFinal e(1) show ?thesis by (cases st) simp_all
  next
    case (Continue q src k)
    with React j have "ok_coroutine ms h c q" by simp
    from frame_ok_suspend [OF frame_ok_prims(1) [OF f] this] React Continue show ?thesis
      by simp
  qed
qed

lemma frame_ok_step:
  assumes i: "inv ms h s c" and r: "results_ok ms s c" and f: "frame_ok ms s"
  shows "frame_ok ms (step s)"
proof (cases "queue s")
  case Nil
  with f show ?thesis by (simp add: step_def)
next
  case (Cons j q)
  let ?s = "s\<lparr>queue := q\<rparr>"
  from i have t: "typed ms h s c" and ic: "inv_calls ms h s c" by (simp_all add: inv_def)
  note hj = typed_head [OF t Cons]
  note f' = frame_ok_prims(7) [OF f, of q]
  have r': "results_ok ms ?s c" using r by (simp add: results_ok_def)
  show ?thesis
  proof (cases "is_microtask j")
    case False
    from frame_ok_exec_job [OF f' hj False r'] Cons show ?thesis by (simp add: step_def)
  next
    case True
    then obtain e where j: "j = Microtask e" by (cases j) auto
    from ic Cons j have e: "e = c - 1" and cl: "c \<le> length ms" and c0: "0 < c"
      by (auto simp: inv_calls_def microtasks_of_def)
    then have el: "Suc e = c" "e < length ms" by auto
    with ic have "static_of s e = (Some (ms ! e), drop (Suc e) ms, h)"
      by (simp add: inv_calls_def)
    from static_of_fields [OF this]
    have st: "remaining (execs ?s e) = drop (Suc e) ms" by simp
    have "frame_ok ms (runRemaining e ?s)"
      by (rule frame_ok_runRemaining [OF f' el(2) st]) (use r el in \<open>auto simp: results_ok_def\<close>)
    with f' Cons j show ?thesis by (simp add: step_def)
  qed
qed

lemma frame_ok_init: "frame_ok ms (finalRouteHandler ms h)"
proof -
  let ?s0 = "init\<lparr>execs := (execs init)(0 := new_Executor ms h)\<rparr>"
  have "frame_ok ms ?s0" by (simp add: frame_ok_def)
  then have "frame_ok ms (run 0 ?s0)"
    by (rule frame_ok_run) (cases ms; simp)+
  then show ?thesis by (simp add: finalRouteHandler_def frame_ok_prims)
qed

lemma wire_extends:
  assumes w: "wire s p r d" and x: "extends s s'"
    and d: "pst (proms s p) \<noteq> Pending \<Longrightarrow> d \<Longrightarrow> d'"
  shows "wire s' p r d'"
proof (cases "pst (proms s p) = Pending")
  case True
  with w have r: "r \<in> set (reactions (proms s p))" by (simp add: wire_def)
  show ?thesis
  proof (cases "pst (proms s' p) = Pending")
    case True
    with x obtain rs where "reactions (proms s' p) = reactions (proms s p) @ rs"
      unfolding extends_def by blast
    with r True show ?thesis by (simp add: wire_def)
  next
    case False
    with x True r have "React r (pst (proms s' p)) \<in> set (queue s')"
      unfolding extends_def by blast
    with False show ?thesis by (simp add: wire_def)
  qed
next
  case False
  with x have p: "pst (proms s' p) = pst (proms s p)" unfolding extends_def by blast
  from x obtain js where q: "queue s' = queue s @ js" unfolding extends_def by blast
  from w False have "d \<or> React r (pst (proms s p)) \<in> set (queue s)" by (simp add: wire_def)
  with d [OF False] p q False show ?thesis by (auto simp: wire_def)
qed

lemma wire_subscribe: "wire (subscribe p r s) p r d"
  by (simp add: wire_def subscribe_def enqueue_def)

lemma wire_pop:
  "wire s p r d \<Longrightarrow> queue s = j # q \<Longrightarrow> j \<noteq> React r (pst (proms s p)) \<Longrightarrow>
   wire (s\<lparr>queue := q\<rparr>) p r d"
  by (auto simp: wire_def)

lemma wire_run:
  assumes "currentFn (execs s e) = Some (Async b)"
  shows "wire (run e s) (Result e) (OnResult e) d"
proof -
  let ?x = "set_result e (Some (Result e)) (suspend (Result e) (run_body True b) (emit [MwCall e] s))"
  have "wire (subscribe (Result e) (OnResult e) ?x) (Result e) (OnResult e) False"
    by (rule wire_subscribe)
  from wire_extends [OF this extends_enqueue, of d "Microtask e"] assms show ?thesis
    by (simp add: run_def)
qed

text \<open>The job at the head of the queue, once run, has done its work.\<close>

lemma exec_OnResult:
  assumes f: "frame_ok ms s" and e: "e < length ms" "is_async (ms ! e)"
    and st: "st = pst (proms s (Result e))" "st \<noteq> Pending"
  shows "pst (proms (exec_job (React (OnResult e) st) s) (Internal e)) = st"
proof -
  from f e st have "pst (proms s (Internal e)) = Pending \<or> pst (proms s (Internal e)) = st"
    by (simp add: frame_ok_def)
  with st(2) show ?thesis
    by (cases st) (auto simp: succeed_def fail_def settle_def set_failed_def)
qed

lemma exec_OnFinal:
  assumes f: "frame_ok ms s" and st: "st = pst (proms s (Internal 0))" "st \<noteq> Pending"
  shows "pst (proms (exec_job (React OnFinal st) s) Final) = st"
proof -
  from f st have "pst (proms s Final) = Pending \<or> pst (proms s Final) = st"
    by (simp add: frame_ok_def)
  with st(2) show ?thesis
    by (cases st) (auto simp: settle_def)
qed

lemma extends_pop_step: "queue s = j # q \<Longrightarrow> extends (s\<lparr>queue := q\<rparr>) (step s)"
  using extends_step [of s] by simp

lemma pst_pop [simp]: "proms (s\<lparr>queue := q\<rparr>) = proms s"
  by simp

lemma wire_step:
  assumes w: "wire s p r d" and f: "frame_ok ms s"
    and nj: "\<And>q. queue s = React r (pst (proms s p)) # q \<Longrightarrow> pst (proms s p) \<noteq> Pending \<Longrightarrow> d'"
    and d: "pst (proms s p) \<noteq> Pending \<Longrightarrow> d \<Longrightarrow> d'"
  shows "wire (step s) p r d'"
proof (cases "queue s")
  case Nil
  with w d show ?thesis by (auto simp: step_def wire_def)
next
  case (Cons j q)
  note x = extends_pop_step [OF Cons]
  show ?thesis
  proof (cases "j = React r (pst (proms s p)) \<and> pst (proms s p) \<noteq> Pending")
    case True
    with nj Cons have d' by simp
    moreover from True x have "pst (proms (step s) p) = pst (proms s p)"
      unfolding extends_def by simp
    ultimately show ?thesis using True by (simp add: wire_def)
  next
    case False
    have "wire (s\<lparr>queue := q\<rparr>) p r d"
    proof (cases "pst (proms s p) = Pending")
      case True
      with w show ?thesis by (simp add: wire_def)
    next
      case False': False
      with False have "j \<noteq> React r (pst (proms s p))" by simp
      from wire_pop [OF w Cons this] show ?thesis .
    qed
    from wire_extends [OF this x] d show ?thesis by simp
  qed
qed

lemma step_head: "queue s = j # q \<Longrightarrow> step s = exec_job j (s\<lparr>queue := q\<rparr>)"
  by (simp add: step_def)

lemma evolves_stable_eq:
  assumes "evolves s s'" "pst (proms s p) = pst (proms s q)" "pst (proms s p) \<noteq> Pending"
  shows "pst (proms s' p) = pst (proms s' q)"
  using assms by (simp add: evolves_def)

lemma wired_step:
  assumes i: "inv_all ms h s c"
  shows "wired ms (step s) (if advances s c then Suc c else c)"
proof -
  from i have f: "frame_ok ms s" and w: "wired ms s c" and t: "typed ms h s c"
    and ic: "inv_calls ms h s c"
    by (simp_all add: inv_all_def inv_def)
  note ev = evolves_step [of s]
  have fin: "wire (step s) (Internal 0) OnFinal
      (pst (proms (step s) Final) = pst (proms (step s) (Internal 0)))"
  proof (rule wire_step [OF _ f])
    show "wire s (Internal 0) OnFinal (pst (proms s Final) = pst (proms s (Internal 0)))"
      using w by (simp add: wired_def)
  next
    fix q assume q: "queue s = React OnFinal (pst (proms s (Internal 0))) # q"
      and p: "pst (proms s (Internal 0)) \<noteq> Pending"
    have "pst (proms (step s) Final) = pst (proms s (Internal 0))"
      unfolding step_head [OF q]
      by (rule exec_OnFinal [OF frame_ok_prims(7) [OF f]]) (use p in simp_all)
    with evolves_pst [OF ev p] show "pst (proms (step s) Final) = pst (proms (step s) (Internal 0))"
      by simp
  next
    assume "pst (proms s (Internal 0)) \<noteq> Pending" "pst (proms s Final) = pst (proms s (Internal 0))"
    then show "pst (proms (step s) Final) = pst (proms (step s) (Internal 0))"
      using evolves_stable_eq [OF ev, of Final "Internal 0"] by simp
  qed
  have old: "wire (step s) (Result e) (OnResult e)
      (pst (proms (step s) (Internal e)) = pst (proms (step s) (Result e)))"
    if e: "e < c" "e < length ms" "is_async (ms ! e)" for e
  proof (rule wire_step [OF _ f])
    show "wire s (Result e) (OnResult e) (pst (proms s (Internal e)) = pst (proms s (Result e)))"
      using w e by (simp add: wired_def)
  next
    fix q assume q: "queue s = React (OnResult e) (pst (proms s (Result e))) # q"
      and p: "pst (proms s (Result e)) \<noteq> Pending"
    have "pst (proms (step s) (Internal e)) = pst (proms s (Result e))"
      unfolding step_head [OF q]
      by (rule exec_OnResult [OF frame_ok_prims(7) [OF f] e(2,3)]) (use p in simp_all)
    with evolves_pst [OF ev p]
    show "pst (proms (step s) (Internal e)) = pst (proms (step s) (Result e))" by simp
  next
    assume "pst (proms s (Result e)) \<noteq> Pending" "pst (proms s (Internal e)) = pst (proms s (Result e))"
    then show "pst (proms (step s) (Internal e)) = pst (proms (step s) (Result e))"
      using evolves_stable_eq [OF ev, of "Internal e" "Result e"] by simp
  qed
  have new: "wire (step s) (Result c) (OnResult c)
      (pst (proms (step s) (Internal c)) = pst (proms (step s) (Result c)))"
    if a: "advances s c" and e: "c < length ms" "is_async (ms ! c)"
  proof -
    from a obtain q where q: "queue s = Microtask (c - 1) # q"
      and nf: "\<not> asyncMiddlewareFailed (execs s (c - 1))" by (auto simp: advances_def)
    from ic have c0: "0 < c" by (simp add: inv_calls_def)
    with ic e have "static_of s (c - 1) = (Some (ms ! (c - 1)), drop (Suc (c - 1)) ms, h)"
      by (simp add: inv_calls_def)
    from static_of_fields [OF this] c0
    have r: "remaining (execs s (c - 1)) = drop c ms" by simp
    from e have d: "drop c ms = ms ! c # drop (Suc c) ms" by (simp add: Cons_nth_drop_Suc)
    let ?s1 = "s\<lparr>queue := q, execs := (execs s)(c := new_Executor (drop c ms) (apiRouteFn (execs s (c - 1))))\<rparr>"
    obtain b where b: "ms ! c = Async b" using e by (cases "ms ! c") auto
    have st: "step s = subscribe (Internal c) (OnRemaining (c - 1)) (run c ?s1)"
      using q nf r d c0 by (simp add: step_def runRemaining_def)
    have "currentFn (execs ?s1 c) = Some (Async b)" using d b by simp
    from wire_extends [OF wire_run [OF this, of False] extends_subscribe] show ?thesis
      unfolding st by simp
  qed
  show ?thesis
    unfolding wired_def using fin old new by (auto simp: less_Suc_eq)
qed

lemma wired_init:
  assumes "ms \<noteq> []"
  shows "wired ms (finalRouteHandler ms h) 1"
proof -
  obtain m r where ms: "ms = m # r" using assms by (cases ms) auto
  let ?s0 = "init\<lparr>execs := (execs init)(0 := new_Executor ms h)\<rparr>"
  have 1: "wire (finalRouteHandler ms h) (Internal 0) OnFinal d" for d
    unfolding finalRouteHandler_def by (rule wire_subscribe)
  have 2: "wire (finalRouteHandler ms h) (Result 0) (OnResult 0) d" if "is_async m" for d
  proof -
    from that obtain b where "m = Async b" by (cases m) auto
    then have "currentFn (execs ?s0 0) = Some (Async b)" by (simp add: ms)
    from wire_extends [OF wire_run [OF this, of False] extends_subscribe] show ?thesis
      unfolding finalRouteHandler_def by simp
  qed
  show ?thesis unfolding wired_def using 1 2 by (auto simp: ms)
qed

lemma inv_all_init: "ms \<noteq> [] \<Longrightarrow> inv_all ms h (finalRouteHandler ms h) 1"
  unfolding inv_all_def
  using inv_init [of ms h] results_ok_init [of ms h] frame_ok_init [of ms h] wired_init [of ms h]
  by blast

lemma inv_all_step:
  assumes "inv_all ms h s c"
  shows "inv_all ms h (step s) (if advances s c then Suc c else c)"
proof -
  from assms have i: "inv ms h s c" and r: "results_ok ms s c" and f: "frame_ok ms s"
    by (simp_all add: inv_all_def)
  from i have ic: "inv_calls ms h s c" by (simp add: inv_def)
  from inv_step [OF i] results_ok_step [OF ic r] frame_ok_step [OF i r f] wired_step [OF assms]
  show ?thesis unfolding inv_all_def by blast
qed

lemma inv_all_drain: "inv_all ms h s c \<Longrightarrow> \<exists>c'. c \<le> c' \<and> inv_all ms h (drain n s) c'"
proof (induction n arbitrary: s c)
  case 0
  then show ?case by auto
next
  case (Suc n)
  let ?c = "if advances s c then Suc c else c"
  from Suc.IH [OF inv_all_step [OF Suc.prems]] obtain c'
    where "?c \<le> c'" "inv_all ms h (drain n (step s)) c'" by blast
  then show ?case by (auto split: if_splits intro: exI [of _ c'])
qed

lemma inv_all_reachable: "ms \<noteq> [] \<Longrightarrow> \<exists>c. inv_all ms h (makeMiddlewareExecutor ms h n) c"
  unfolding makeMiddlewareExecutor_def using inv_all_drain [OF inv_all_init] by blast

text \<open>The queue is first in, first out: a queued job gets to the head.\<close>

lemma job_runs_aux:
  "queue s = q1 @ j # q2 \<Longrightarrow> \<exists>q. queue (drain (length q1) s) = j # q"
proof (induction q1 arbitrary: s q2)
  case Nil
  then show ?case by simp
next
  case (Cons a q1)
  from queue_step [of s] Cons.prems obtain js where "queue (step s) = q1 @ j # (q2 @ js)"
    by auto
  from Cons.IH [OF this] show ?case by simp
qed

lemma job_runs: "j \<in> set (queue s) \<Longrightarrow> \<exists>n q. queue (drain n s) = j # q"
  by (metis job_runs_aux split_list)

text \<open>Whatever state the promise of an asynchronous middleware settles to, the outcome of
  its executor takes it.\<close>

lemma frame_follows_result:
  assumes i: "inv_all ms h s c" and e: "e < c" "e < length ms" "is_async (ms ! e)"
    and st: "pst (proms s (Result e)) = st" "st \<noteq> Pending"
  shows "\<exists>n. pst (proms (drain n s) (Internal e)) = st"
proof -
  from i e have "wire s (Result e) (OnResult e) (pst (proms s (Internal e)) = pst (proms s (Result e)))"
    by (simp add: inv_all_def wired_def)
  with st have "pst (proms s (Internal e)) = st \<or> React (OnResult e) st \<in> set (queue s)"
    by (auto simp: wire_def)
  then show ?thesis
  proof
    assume "pst (proms s (Internal e)) = st"
    then have "pst (proms (drain 0 s) (Internal e)) = st" by simp
    then show ?thesis by blast
  next
    assume "React (OnResult e) st \<in> set (queue s)"
    from job_runs [OF this] obtain n q where q: "queue (drain n s) = React (OnResult e) st # q"
      by blast
    let ?s = "drain n s"
    from inv_all_drain [OF i, of n] obtain c' where "inv_all ms h ?s c'" by blast
    then have f: "frame_ok ms ?s" by (simp add: inv_all_def)
    from evolves_pst [OF evolves_drain, of s "Result e" n] st
    have p: "st = pst (proms ?s (Result e))" by simp
    have "pst (proms (step ?s) (Internal e)) = st"
      unfolding step_head [OF q]
      by (rule exec_OnResult [OF frame_ok_prims(7) [OF f] e(2,3)]) (use p st in simp_all)
    then have "pst (proms (drain (Suc n) s) (Internal e)) = st" by (simp only: drain_Suc_right)
    then show ?thesis by blast
  qed
qed


lemma pst_stable:
  assumes "pst (proms (drain n s) p) = st" "st \<noteq> Pending" "n \<le> m"
  shows "pst (proms (drain m s) p) = st"
proof -
  from assms(3) have "n + (m - n) = m" by simp
  with drain_add [of n "m - n" s] have "drain m s = drain (m - n) (drain n s)" by (simp only:)
  with evolves_pst [OF evolves_drain, of "drain n s" p "m - n"] assms(1,2) show ?thesis by simp
qed

section \<open>Executors that do not exist yet\<close>

lemma step_cases [consumes 1, case_names idle job skip advance]:
  assumes i: "inv ms h s c"
  obtains
    (idle) "queue s = []" "step s = s" "\<not> advances s c"
  | (job) j q where "queue s = j # q" "\<not> is_microtask j" "ok_job ms h (s\<lparr>queue := q\<rparr>) c j"
      "step s = exec_job j (s\<lparr>queue := q\<rparr>)" "\<not> advances s c"
  | (skip) q where "queue s = Microtask (c - 1) # q" "asyncMiddlewareFailed (execs s (c - 1))"
      "step s = s\<lparr>queue := q\<rparr>" "\<not> advances s c"
  | (advance) e q where "queue s = Microtask e # q" "Suc e = c" "e < length ms"
      "remaining (execs s e) = drop (Suc e) ms" "apiRouteFn (execs s e) = h"
      "step s = runRemaining e (s\<lparr>queue := q\<rparr>)" "advances s c"
proof (cases "queue s")
  case Nil
  then show ?thesis using idle by (simp add: step_def advances_def)
next
  case (Cons j q)
  from i have t: "typed ms h s c" and ic: "inv_calls ms h s c" by (simp_all add: inv_def)
  show ?thesis
  proof (cases "is_microtask j")
    case False
    then have "\<not> advances s c" using Cons by (auto simp: advances_def)
    with job [OF Cons False typed_head [OF t Cons]] Cons show ?thesis by (simp add: step_def)
  next
    case True
    then obtain e where j: "j = Microtask e" by (cases j) auto
    from ic Cons j have e: "e = c - 1" and cl: "c \<le> length ms" and c0: "0 < c"
      by (auto simp: inv_calls_def microtasks_of_def)
    then have el: "Suc e = c" "e < length ms" by auto
    with ic have "static_of s e = (Some (ms ! e), drop (Suc e) ms, h)"
      by (simp add: inv_calls_def)
    note f = static_of_fields [OF this]
    show ?thesis
    proof (cases "asyncMiddlewareFailed (execs s e)")
      case True
      with e have "\<not> advances s c" by (simp add: advances_def)
      with skip [of q] True Cons j e show ?thesis by (simp add: step_def)
    next
      case False
      with e Cons j have "advances s c" by (simp add: advances_def)
      with advance [of e q] False Cons j el f show ?thesis by (simp add: step_def)
    qed
  qed
qed

lemma fresh_same: "fresh ms s c \<Longrightarrow> \<forall>p. pst (proms s' p) = pst (proms s p) \<Longrightarrow> fresh ms s' c"
  by (simp add: fresh_def)

lemma fresh_prims:
  "fresh ms s c \<Longrightarrow> fresh ms (emit es s) c"
  "fresh ms s c \<Longrightarrow> fresh ms (enqueue j s) c"
  "fresh ms s c \<Longrightarrow> fresh ms (subscribe p r s) c"
  "fresh ms s c \<Longrightarrow> fresh ms (set_result e x s) c"
  "fresh ms s c \<Longrightarrow> fresh ms (set_failed e s) c"
  "fresh ms s c \<Longrightarrow> fresh ms (s\<lparr>execs := xs\<rparr>) c"
  "fresh ms s c \<Longrightarrow> fresh ms (s\<lparr>queue := q\<rparr>) c"
  by (erule fresh_same, simp add: prim_defs)+

lemma allowed_mono: "allowed ms c p \<Longrightarrow> c \<le> c' \<Longrightarrow> allowed ms c' p"
  by (cases p) auto

lemma fresh_mono: "fresh ms s c \<Longrightarrow> c \<le> c' \<Longrightarrow> fresh ms s c'"
  unfolding fresh_def by (meson allowed_mono)

lemma fresh_settle: "fresh ms s c \<Longrightarrow> allowed ms c p \<Longrightarrow> fresh ms (settle p st s) c"
  by (auto simp: fresh_def settle_def)

lemma ok_coroutine_allowed: "ok_coroutine ms h c q \<Longrightarrow> allowed ms c q"
  by (cases q) auto

lemma fresh_suspend:
  assumes f: "fresh ms s c" and q: "ok_coroutine ms h c q"
  shows "fresh ms (suspend q r s) c"
  using fresh_settle [OF fresh_prims(1) [OF f] ok_coroutine_allowed [OF q]]
  by (cases r; cases "snd r") (auto simp: fresh_prims f)

lemma fresh_finish:
  assumes "fresh ms s c" "e < c" "e < length ms"
  shows "fresh ms (finish e v s) c"
  using assms by (simp add: finish_def succeed_def fail_def fresh_settle)

lemma fresh_run:
  assumes f: "fresh ms s c" and e: "e < c" "e < length ms"
    and m: "currentFn (execs s e) = Some (ms ! e)"
  shows "fresh ms (run e s) c"
proof (cases "ms ! e")
  case (Sync b)
  obtain es r where c: "call_sync True b = (es, r)" by (cases "call_sync True b")
  have "fresh ms (fail e v (emit es' s)) c" for v es'
    unfolding fail_def by (rule fresh_settle [OF fresh_prims(1) [OF f]]) (use e in simp)
  with m Sync c f show ?thesis
    by (cases r) (simp_all add: run_def fresh_prims)
next
  case (Async b)
  with e have "ok_coroutine ms (Sync []) c (Result e)" by simp
  from fresh_suspend [OF fresh_prims(1) [OF f] this] m Async show ?thesis
    by (simp add: run_def fresh_prims)
qed

lemma fresh_runRemaining:
  assumes f: "fresh ms s c" and e: "Suc e = c" "e < length ms"
    and st: "remaining (execs s e) = drop (Suc e) ms"
  shows "fresh ms (runRemaining e s) (Suc c)"
proof (cases "Suc e < length ms")
  case True
  then have d: "drop (Suc e) ms = ms ! Suc e # drop (Suc (Suc e)) ms"
    by (simp add: Cons_nth_drop_Suc)
  let ?s1 = "s\<lparr>execs := (execs s)(Suc e := new_Executor (remaining (execs s e)) (apiRouteFn (execs s e)))\<rparr>"
  have "fresh ms ?s1 (Suc c)" by (rule fresh_prims(6) [OF fresh_mono [OF f]]) simp
  then have "fresh ms (run (Suc e) ?s1) (Suc c)"
    by (rule fresh_run) (use True st d e in auto)
  with st d show ?thesis by (simp add: runRemaining_def fresh_prims)
next
  case False
  with e st have r0: "remaining (execs s e) = []" "Suc e = length ms" by auto
  have f': "fresh ms s (Suc c)" by (rule fresh_mono [OF f]) simp
  show ?thesis
  proof (cases "apiRouteFn (execs s e)")
    case (Sync hb)
    obtain es r' where c: "call_sync False hb = (es, r')" by (cases "call_sync False hb")
    have "fresh ms (finish e v (emit es' s)) (Suc c)" for v es'
      by (rule fresh_finish [OF fresh_prims(1) [OF f']]) (use e in auto)
    with r0 Sync c f' show ?thesis
      by (cases r') (simp_all add: runRemaining_def fresh_prims)
  next
    case (Async hb)
    from r0 e have "ok_coroutine ms (Async hb) (Suc c) (RouteResult e)" by auto
    from fresh_suspend [OF fresh_prims(1) [OF f'] this] r0 Async show ?thesis
      by (simp add: runRemaining_def fresh_prims)
  qed
qed

lemma fresh_exec_job:
  assumes f: "fresh ms s c" and j: "ok_job ms h s c j" and n: "\<not> is_microtask j"
  shows "fresh ms (exec_job j s) c"
proof (cases j)
  case (Microtask e)
  with n show ?thesis by simp
next
  case (React r st)
  show ?thesis
  proof (cases r)
    case (OnResult e)
    with React j have e: "e < c" "e < length ms" by auto
    have "fresh ms (settle (Internal e) st' (set_failed e s)) c" for st'
      by (rule fresh_settle [OF fresh_prims(5) [OF f]]) (use e in simp)
    moreover have "fresh ms (settle (Internal e) st' s) c" for st'
      by (rule fresh_settle [OF f]) (use e in simp)
    ultimately show ?thesis using React OnResult
      by (cases st) (simp_all add: succeed_def fail_def)
  next
    case (OnRemaining e)
    with React j have "e < c" "e < length ms" by auto
    from fresh_finish [OF f this] React OnRemaining show ?thesis
      by (simp split: pstate.splits)
  next
    case OnFinal
    with React fresh_settle [OF f, of Final] show ?thesis by (cases st) simp_all
  next
    case (Continue q src k)
    with React j have "ok_coroutine ms h c q" by simp
    from fresh_suspend [OF fresh_prims(1) [OF f] this] React Continue show ?thesis by simp
  qed
qed

lemma fresh_step:
  assumes i: "inv ms h s c" and f: "fresh ms s c"
  shows "fresh ms (step s) (if advances s c then Suc c else c)"
  using i
proof (cases rule: step_cases)
  case idle
  with f show ?thesis by simp
next
  case (job j q)
  with fresh_exec_job [OF fresh_prims(7) [OF f, of q] job(3,2)] show ?thesis by simp
next
  case (skip q)
  with fresh_prims(7) [OF f, of q] show ?thesis by simp
next
  case (advance e q)
  have "fresh ms (runRemaining e (s\<lparr>queue := q\<rparr>)) (Suc c)"
    by (rule fresh_runRemaining [OF fresh_prims(7) [OF f] advance(2,3)]) (use advance in simp)
  with advance show ?thesis by simp
qed

lemma fresh_init:
  assumes "ms \<noteq> []"
  shows "fresh ms (finalRouteHandler ms h) 1"
proof -
  obtain m r where ms: "ms = m # r" using assms by (cases ms) auto
  let ?s0 = "init\<lparr>execs := (execs init)(0 := new_Executor ms h)\<rparr>"
  have "fresh ms ?s0 1" by (simp add: fresh_def)
  then have "fresh ms (run 0 ?s0) 1" by (rule fresh_run) (simp_all add: ms)
  then show ?thesis by (simp add: finalRouteHandler_def fresh_prims)
qed

section \<open>The gate of line 99\<close>

lemma quiet_append:
  "Microtask e \<in> set q \<Longrightarrow> quiet e (q @ js) = quiet e q"
  by (simp add: quiet_def takeWhile_append1 [where P = "\<lambda>j. j \<noteq> Microtask e"] split: if_splits)

lemma quiet_new:
  "\<forall>v. React (OnResult e) (Rejected v) \<notin> set q \<Longrightarrow> quiet e (q @ Microtask e # js)"
  unfolding quiet_def
  by (auto simp: takeWhile_append dest: set_takeWhileD)

lemma failed_exec_job:
  assumes "\<not> is_microtask j" "\<forall>v. j \<noteq> React (OnResult e) (Rejected v)"
  shows "asyncMiddlewareFailed (execs (exec_job j s) e) = asyncMiddlewareFailed (execs s e)"
proof (cases j)
  case (Microtask x)
  with assms show ?thesis by simp
next
  case (React r st)
  have [simp]: "execs (suspend p x t) = execs t" for p x t
    by (cases x; cases "snd x") simp_all
  have [simp]: "execs (finish a v t) = execs t" for a v t
    by (simp add: finish_def succeed_def fail_def)
  from React assms show ?thesis
    by (cases r; cases st) (auto simp: succeed_def fail_def set_failed_def)
qed

lemma queue_suspend_quiet:
  "\<exists>A. queue (suspend (Result e) r s) =
          queue s @ (if pst (proms s (Result e)) = Pending \<and> (snd r = Done \<or> (\<exists>v. snd r = Threw v))
                     then map (\<lambda>x. React x (case snd r of Threw v \<Rightarrow> Rejected v | _ \<Rightarrow> Fulfilled))
                            (reactions (proms s (Result e))) else []) @ A \<and>
       (\<forall>j\<in>set A. \<exists>src k st. j = React (Continue (Result e) src k) st)"
  by (cases r; cases "snd r") (auto simp: prim_defs)

lemma run_gate:
  assumes m: "currentFn (execs s e) = Some m" and st: "starts m"
    and p: "pst (proms s (Result e)) = Pending" and r: "reactions (proms s (Result e)) = []"
  shows "\<exists>A. queue (run e s) = queue s @ A @ [Microtask e] \<and>
             (\<forall>v. React (OnResult e) (Rejected v) \<notin> set A)"
proof (cases m)
  case (Sync b)
  with st obtain es where "call_sync True b = (es, None)" by (cases "call_sync True b") auto
  with m Sync show ?thesis by (simp add: run_def prim_defs)
next
  case (Async b)
  obtain es x where rb: "run_body True b = (es, x)" by (cases "run_body True b")
  with st Async have x: "\<forall>v. x \<noteq> Threw v" by (auto split: susp.splits)
  show ?thesis
  proof (cases x)
    case Done
    with m Async rb p r show ?thesis by (simp add: run_def prim_defs)
  next
    case (Threw v)
    with x show ?thesis by simp
  next
    case (AwaitingNext k)
    with m Async rb p r show ?thesis by (auto simp: run_def prim_defs)
  next
    case (AwaitingTick k)
    with m Async rb p r show ?thesis by (auto simp: run_def prim_defs)
  qed
qed

lemma failed_run: "asyncMiddlewareFailed (execs (run e s) e') = asyncMiddlewareFailed (execs s e')"
proof -
  have [simp]: "execs (suspend p x t) = execs t" for p x t
    by (cases x; cases "snd x") simp_all
  show ?thesis
    by (auto simp: run_def fail_def set_result_def split: option.splits fn.splits prod.splits)
qed

lemma gate_step:
  assumes i: "inv ms h s c" and f: "fresh ms s c" and g: "gate ms s c"
  shows "gate ms (step s) (if advances s c then Suc c else c)"
  using i
proof (cases rule: step_cases)
  case idle
  with g show ?thesis by simp
next
  case (job j q)
  let ?e = "c - 1"
  have "gate ms (exec_job j (s\<lparr>queue := q\<rparr>)) c"
    unfolding gate_def
  proof (intro impI)
    assume a: "c \<le> length ms \<and> starts (ms ! ?e)"
    with g have m: "Microtask ?e \<in> set (queue s)" and nf: "\<not> asyncMiddlewareFailed (execs s ?e)"
      and qu: "quiet ?e (queue s)" by (simp_all add: gate_def)
    from job(2) have jm: "j \<noteq> Microtask ?e" by auto
    with m job(1) have mq: "Microtask ?e \<in> set q" by simp
    from qu job(1) jm have jr: "\<forall>v. j \<noteq> React (OnResult ?e) (Rejected v)" and qq: "quiet ?e q"
      by (auto simp: quiet_def)
    from extends_exec_job [of "s\<lparr>queue := q\<rparr>" j] obtain js
      where js: "queue (exec_job j (s\<lparr>queue := q\<rparr>)) = q @ js" by (auto simp: extends_def)
    from failed_exec_job [OF job(2) jr, of "s\<lparr>queue := q\<rparr>"] nf
    have "\<not> asyncMiddlewareFailed (execs (exec_job j (s\<lparr>queue := q\<rparr>)) ?e)" by simp
    with js mq qq show "Microtask ?e \<in> set (queue (exec_job j (s\<lparr>queue := q\<rparr>))) \<and>
      \<not> asyncMiddlewareFailed (execs (exec_job j (s\<lparr>queue := q\<rparr>)) ?e) \<and>
      quiet ?e (queue (exec_job j (s\<lparr>queue := q\<rparr>)))"
      by (simp add: quiet_append)
  qed
  with job show ?thesis by simp
next
  case (skip q)
  from i have "c \<le> length ms" "returns_normally (ms ! (c - 1))"
    using skip(1) by (auto simp: inv_def inv_calls_def microtasks_of_def)
  with g skip(2) have "\<not> starts (ms ! (c - 1))" by (auto simp: gate_def)
  with skip show ?thesis by (simp add: gate_def)
next
  case (advance e q)
  let ?s1 = "s\<lparr>queue := q\<rparr>"
  have "gate ms (runRemaining e ?s1) (Suc c)"
    unfolding gate_def
  proof (intro impI)
    assume a: "Suc c \<le> length ms \<and> starts (ms ! (Suc c - 1))"
    with advance(2) have cl: "Suc e < length ms" and st: "starts (ms ! Suc e)" by auto
    then have d: "drop (Suc e) ms = ms ! Suc e # drop (Suc (Suc e)) ms"
      by (simp add: Cons_nth_drop_Suc)
    let ?s2 = "?s1\<lparr>execs := (execs ?s1)(Suc e := new_Executor (remaining (execs ?s1 e)) (apiRouteFn (execs ?s1 e)))\<rparr>"
    from advance(4) d have cf: "currentFn (execs ?s2 (Suc e)) = Some (ms ! Suc e)"
      by (simp add: new_Executor_def)
    from f advance(2) have pp: "pst (proms ?s2 (Result (Suc e))) = Pending"
      by (auto simp: fresh_def)
    from i have t: "typed ms h s c" by (simp add: inv_def)
    have rr: "reactions (proms ?s2 (Result (Suc e))) = []"
    proof (cases "reactions (proms s (Result (Suc e)))")
      case Nil
      then show ?thesis by simp
    next
      case (Cons r rs)
      with t have "ok_reaction ms h c (Result (Suc e)) r" by (auto simp: typed_def)
      with advance(2) show ?thesis by (cases r) (auto simp: rem_promise_def split: if_splits)
    qed
    from run_gate [OF cf st pp rr] obtain A
      where A: "queue (run (Suc e) ?s2) = q @ A @ [Microtask (Suc e)]"
        and nA: "\<forall>v. React (OnResult (Suc e)) (Rejected v) \<notin> set A" by auto
    have nq: "\<forall>v. React (OnResult (Suc e)) (Rejected v) \<notin> set q"
    proof (intro allI notI)
      fix v assume "React (OnResult (Suc e)) (Rejected v) \<in> set q"
      with t advance(1) have "ok_job ms h s c (React (OnResult (Suc e)) (Rejected v))"
        by (auto simp: typed_def)
      with advance(2) show False by simp
    qed
    have rs: "runRemaining e ?s1 = subscribe (Internal (Suc e)) (OnRemaining e) (run (Suc e) ?s2)"
      using advance(4) d by (simp add: runRemaining_def)
    from extends_def [of "run (Suc e) ?s2" "subscribe (Internal (Suc e)) (OnRemaining e) (run (Suc e) ?s2)"]
      extends_subscribe [of "run (Suc e) ?s2" "Internal (Suc e)" "OnRemaining e"]
    obtain B where B: "queue (runRemaining e ?s1) = (q @ A) @ Microtask (Suc e) # B"
      using A rs by auto
    from nA nq have "\<forall>v. React (OnResult (Suc e)) (Rejected v) \<notin> set (q @ A)" by simp
    from quiet_new [OF this] B have qu: "quiet (Suc e) (queue (runRemaining e ?s1))" by simp
    have "asyncMiddlewareFailed (execs (runRemaining e ?s1) (Suc e)) =
        asyncMiddlewareFailed (execs ?s2 (Suc e))"
      unfolding rs by (simp add: failed_run)
    then have nf: "\<not> asyncMiddlewareFailed (execs (runRemaining e ?s1) (Suc e))"
      by (simp add: new_Executor_def)
    from B qu nf advance(2)
    show "Microtask (Suc c - 1) \<in> set (queue (runRemaining e ?s1)) \<and>
      \<not> asyncMiddlewareFailed (execs (runRemaining e ?s1) (Suc c - 1)) \<and>
      quiet (Suc c - 1) (queue (runRemaining e ?s1))" by auto
  qed
  with advance show ?thesis by simp
qed

lemma gate_init:
  assumes "ms \<noteq> []"
  shows "gate ms (finalRouteHandler ms h) 1"
  unfolding gate_def
proof (intro impI)
  assume a: "1 \<le> length ms \<and> starts (ms ! (1 - 1))"
  obtain m r where ms: "ms = m # r" using assms by (cases ms) auto
  let ?s0 = "init\<lparr>execs := (execs init)(0 := new_Executor ms h)\<rparr>"
  from ms have cf: "currentFn (execs ?s0 0) = Some m" by (simp add: new_Executor_def)
  from a ms have st: "starts m" by simp
  have "pst (proms ?s0 (Result 0)) = Pending" "reactions (proms ?s0 (Result 0)) = []"
    by (simp_all add: init_def)
  from run_gate [OF cf st this] obtain A
    where A: "queue (run 0 ?s0) = [] @ A @ [Microtask 0]"
      and nA: "\<forall>v. React (OnResult 0) (Rejected v) \<notin> set A" by (auto simp: init_def)
  from extends_def [of "run 0 ?s0" "subscribe (Internal 0) OnFinal (run 0 ?s0)"]
    extends_subscribe [of "run 0 ?s0" "Internal 0" OnFinal]
  obtain B where B: "queue (finalRouteHandler ms h) = A @ Microtask 0 # B"
    using A by (auto simp: finalRouteHandler_def)
  from quiet_new [of 0 A B] nA B have "quiet 0 (queue (finalRouteHandler ms h))" by simp
  moreover have "\<not> asyncMiddlewareFailed (execs (finalRouteHandler ms h) 0)"
    by (simp add: finalRouteHandler_def failed_run new_Executor_def)
  ultimately show "Microtask (1 - 1) \<in> set (queue (finalRouteHandler ms h)) \<and>
    \<not> asyncMiddlewareFailed (execs (finalRouteHandler ms h) (1 - 1)) \<and>
    quiet (1 - 1) (queue (finalRouteHandler ms h))"
    using B by simp
qed

section \<open>What every run ends with\<close>

lemma inv_gate_init: "ms \<noteq> [] \<Longrightarrow> inv_gate ms h (finalRouteHandler ms h) 1"
  unfolding inv_gate_def
  using inv_all_init [of ms h] fresh_init [of ms h] gate_init [of ms h] by blast

lemma inv_gate_step:
  assumes "inv_gate ms h s c"
  shows "inv_gate ms h (step s) (if advances s c then Suc c else c)"
proof -
  from assms have a: "inv_all ms h s c" and f: "fresh ms s c" and g: "gate ms s c"
    by (simp_all add: inv_gate_def)
  from a have i: "inv ms h s c" by (simp add: inv_all_def)
  from inv_all_step [OF a] fresh_step [OF i f] gate_step [OF i f g] show ?thesis
    unfolding inv_gate_def by blast
qed

lemma inv_gate_drain: "inv_gate ms h s c \<Longrightarrow> \<exists>c'. c \<le> c' \<and> inv_gate ms h (drain n s) c'"
proof (induction n arbitrary: s c)
  case 0
  then show ?case by auto
next
  case (Suc n)
  let ?c = "if advances s c then Suc c else c"
  from Suc.IH [OF inv_gate_step [OF Suc.prems]] obtain c'
    where "?c \<le> c'" "inv_gate ms h (drain n (step s)) c'" by blast
  then show ?case by (auto split: if_splits intro: exI [of _ c'])
qed

lemma inv_gate_reachable: "ms \<noteq> [] \<Longrightarrow> \<exists>c. inv_gate ms h (makeMiddlewareExecutor ms h n) c"
  unfolding makeMiddlewareExecutor_def using inv_gate_drain [OF inv_gate_init] by blast

lemma inv_calls_called:
  assumes i: "inv_calls ms h s c"
  shows "MwCall e \<in> set (log s) \<longleftrightarrow> e < c \<and> e < length ms"
proof (cases "c \<le> length ms")
  case True
  with i have "calls_of s = map MwCall [0..<c]" by (simp add: inv_calls_def take_full_calls)
  with True show ?thesis by (auto simp: mem_calls_of)
next
  case False
  with i have c: "c = Suc (length ms)" by (simp add: inv_calls_def)
  with i have "calls_of s = full_calls ms" by (simp add: inv_calls_def full_calls_nth)
  with c show ?thesis by (auto simp: mem_calls_of full_calls_def)
qed

text \<open>A promise that is settled belongs to an executor that exists.\<close>

lemma fresh_settled: "fresh ms s c \<Longrightarrow> pst (proms s p) \<noteq> Pending \<Longrightarrow> allowed ms c p"
  by (auto simp: fresh_def)

text \<open>The microtask of line 98 gets its turn: the remainder of a middleware that was called
  and left the way free begins.\<close>

lemma began_eventually:
  assumes i: "inv_gate ms h s c" and ne: "ms \<noteq> []"
    and e: "e < c" "e < length ms" and st: "starts (ms ! e)"
  shows "\<exists>n. began e (drain n s)"
proof (cases "Suc e < c")
  case True
  from i have "inv_calls ms h s c" by (simp add: inv_gate_def inv_all_def inv_def)
  from inv_calls_began [OF this ne, of e] True e have "began e (drain 0 s)" by simp
  then show ?thesis by blast
next
  case False
  with e have ec: "e = c - 1" "c \<le> length ms" by auto
  with i st have "Microtask e \<in> set (queue s)" by (simp add: inv_gate_def gate_def)
  from job_runs [OF this] obtain n q where q: "queue (drain n s) = Microtask e # q" by blast
  let ?s = "drain n s"
  from inv_gate_drain [OF i, of n] obtain c' where c': "c \<le> c'" "inv_gate ms h ?s c'" by blast
  then have ic: "inv_calls ms h ?s c'" by (simp add: inv_gate_def inv_all_def inv_def)
  show ?thesis
  proof (cases "c' = c")
    case False
    with c' ec e have "Suc e < c'" by auto
    with inv_calls_began [OF ic ne, of e] e have "began e ?s" by simp
    then show ?thesis by blast
  next
    case True
    with c' ec st have "\<not> asyncMiddlewareFailed (execs ?s e)" by (simp add: inv_gate_def gate_def)
    with q ec True have "advances ?s c'" by (simp add: advances_def)
    with inv_gate_step [OF c'(2)] have "inv_gate ms h (step ?s) (Suc c')" by simp
    then have "inv_calls ms h (step ?s) (Suc c')" by (simp add: inv_gate_def inv_all_def inv_def)
    from inv_calls_began [OF this ne, of e] True ec e have "began e (step ?s)" by simp
    then have "began e (drain (Suc n) s)" by (simp only: drain_Suc_right)
    then show ?thesis by blast
  qed
qed

lemma began_finally:
  assumes ne: "ms \<noteq> []" and e: "e < length ms" "starts (ms ! e)"
    and c: "MwCall e \<in> set (log (makeMiddlewareExecutor ms h n))"
  shows "\<exists>n0. \<forall>n'\<ge>n0. began e (makeMiddlewareExecutor ms h n')"
proof -
  let ?s = "makeMiddlewareExecutor ms h n"
  from inv_gate_reachable [OF ne] obtain c where i: "inv_gate ms h ?s c" by blast
  then have "inv_calls ms h ?s c" by (simp add: inv_gate_def inv_all_def inv_def)
  from inv_calls_called [OF this] c have "e < c" by simp
  from began_eventually [OF i ne this e] obtain k where "began e (drain k ?s)" by blast
  then have b: "began e (drain (n + k) (finalRouteHandler ms h))"
    by (simp add: makeMiddlewareExecutor_def drain_add)
  have "began e (makeMiddlewareExecutor ms h n')" if "n + k \<le> n'" for n'
    unfolding makeMiddlewareExecutor_def by (rule began_mono [OF b that])
  then show ?thesis by blast
qed

text \<open>Once the promise of an asynchronous middleware is settled, the outcome of its
  executor gets the same state and keeps it.\<close>

lemma frame_finally:
  assumes ne: "ms \<noteq> []" and e: "e < length ms" "is_async (ms ! e)"
    and st: "pst (proms (makeMiddlewareExecutor ms h n) (Result e)) = st" "st \<noteq> Pending"
  shows "\<exists>n0. \<forall>n'\<ge>n0. pst (proms (makeMiddlewareExecutor ms h n') (Internal e)) = st"
proof -
  let ?s = "makeMiddlewareExecutor ms h n"
  from inv_gate_reachable [OF ne] obtain c where i: "inv_gate ms h ?s c" by blast
  then have a: "inv_all ms h ?s c" and f: "fresh ms ?s c" by (simp_all add: inv_gate_def)
  from fresh_settled [OF f, of "Result e"] st have "e < c" by simp
  from frame_follows_result [OF a this e st] obtain k
    where "pst (proms (drain k ?s) (Internal e)) = st" by blast
  then have b: "pst (proms (drain (n + k) (finalRouteHandler ms h)) (Internal e)) = st"
    by (simp add: makeMiddlewareExecutor_def drain_add)
  have "pst (proms (makeMiddlewareExecutor ms h n') (Internal e)) = st" if "n + k \<le> n'" for n'
    unfolding makeMiddlewareExecutor_def by (rule pst_stable [OF b st(2) that])
  then show ?thesis by blast
qed


lemma frame_pending_or_result:
  assumes ne: "ms \<noteq> []" and e: "e < length ms" "is_async (ms ! e)"
  shows "pst (proms (makeMiddlewareExecutor ms h n) (Internal e)) = Pending \<or>
         pst (proms (makeMiddlewareExecutor ms h n) (Internal e)) =
           pst (proms (makeMiddlewareExecutor ms h n) (Result e))"
  using inv_all_reachable [OF ne, of h n] e by (auto simp: inv_all_def frame_ok_def)

section \<open>What a call throws\<close>

lemma starts_thrown: "starts m \<longleftrightarrow> thrown m = None"
  by (cases m) (auto split: susp.splits)

lemma extends_pst: "extends s s' \<Longrightarrow> pst (proms s p) \<noteq> Pending \<Longrightarrow> pst (proms s' p) = pst (proms s p)"
  unfolding extends_def by metis

lemma thrown_run:
  assumes m: "currentFn (execs s e) = Some m" and t: "thrown m = Some v"
    and p: "pst (proms s (Internal e)) = Pending" "pst (proms s (Result e)) = Pending"
  shows "pst (proms (run e s) (if is_async m then Result e else Internal e)) = Rejected v"
proof (cases m)
  case (Sync b)
  with t obtain es where "call_sync True b = (es, Some v)"
    by (cases "call_sync True b") auto
  with m p Sync show ?thesis by (simp add: run_def prim_defs)
next
  case (Async b)
  with t obtain es where "run_body True b = (es, Threw v)"
    by (cases "run_body True b"; cases "snd (run_body True b)") auto
  with m p Async show ?thesis by (simp add: run_def prim_defs)
qed

lemma stall_val_step:
  assumes i: "inv ms h s c" and f: "fresh ms s c" and o: "stall_val ms s c"
  shows "stall_val ms (step s) (if advances s c then Suc c else c)"
proof -
  have old: "pst (proms (step s) (own ms e)) = Rejected v"
    if "e < c" "e < length ms" "thrown (ms ! e) = Some v" for e v
  proof -
    from o that have "pst (proms (s\<lparr>queue := tl (queue s)\<rparr>) (own ms e)) = Rejected v"
      by (simp add: stall_val_def)
    with extends_pst [OF extends_step, of s "own ms e"] show ?thesis by simp
  qed
  show ?thesis
    using i
  proof (cases rule: step_cases)
    case (advance e q)
    have "pst (proms (step s) (own ms c)) = Rejected v"
      if c: "c < length ms" "thrown (ms ! c) = Some v" for v
    proof -
      from advance(2) have ce: "c = Suc e" by simp
      from c ce have d: "drop (Suc e) ms = ms ! Suc e # drop (Suc (Suc e)) ms"
        by (simp add: Cons_nth_drop_Suc)
      let ?s2 = "s\<lparr>queue := q, execs := (execs s)(Suc e := new_Executor (remaining (execs s e)) (apiRouteFn (execs s e)))\<rparr>"
      have st: "step s = subscribe (Internal (Suc e)) (OnRemaining e) (run (Suc e) ?s2)"
        using advance(4,6) d by (simp add: runRemaining_def)
      from d advance(4) have cf: "currentFn (execs ?s2 (Suc e)) = Some (ms ! Suc e)"
        by (simp add: new_Executor_def)
      from c(2) have th: "thrown (ms ! Suc e) = Some v" unfolding ce .
      from f ce have "pst (proms ?s2 (Internal (Suc e))) = Pending"
        "pst (proms ?s2 (Result (Suc e))) = Pending" by (simp_all add: fresh_def)
      from thrown_run [OF cf th this]
      have "pst (proms (run (Suc e) ?s2) (own ms (Suc e))) = Rejected v"
        unfolding own_def .
      with extends_pst [OF extends_subscribe, of "run (Suc e) ?s2" "own ms (Suc e)"]
      show ?thesis unfolding st ce by simp
    qed
    with old advance(7) show ?thesis by (auto simp: stall_val_def less_Suc_eq)
  qed (use old in \<open>auto simp: stall_val_def\<close>)
qed

lemma stall_val_init:
  assumes "ms \<noteq> []"
  shows "stall_val ms (finalRouteHandler ms h) 1"
proof -
  obtain m r where ms: "ms = m # r" using assms by (cases ms) auto
  let ?s0 = "init\<lparr>execs := (execs init)(0 := new_Executor ms h)\<rparr>"
  have "pst (proms (finalRouteHandler ms h) (own ms 0)) = Rejected v" if "thrown m = Some v" for v
  proof -
    have "currentFn (execs ?s0 0) = Some m" by (simp add: ms new_Executor_def)
    from thrown_run [OF this that] have "pst (proms (run 0 ?s0) (own ms 0)) = Rejected v"
      by (simp add: own_def ms)
    with extends_pst [OF extends_subscribe, of "run 0 ?s0" "own ms 0"] show ?thesis
      by (simp add: finalRouteHandler_def)
  qed
  then show ?thesis by (auto simp: stall_val_def ms)
qed

lemma failed_exec_job_mono:
  assumes "\<not> is_microtask j" "asyncMiddlewareFailed (execs s e)"
  shows "asyncMiddlewareFailed (execs (exec_job j s) e)"
proof (cases "\<exists>v. j = React (OnResult e) (Rejected v)")
  case True
  then show ?thesis by (auto simp: fail_def set_failed_def)
next
  case False
  with failed_exec_job [OF assms(1), of e s] assms(2) show ?thesis by simp
qed

lemma failed_OnResult:
  "asyncMiddlewareFailed (execs (exec_job (React (OnResult e) (Rejected v)) s) e)"
  by (simp add: fail_def set_failed_def)

lemma run_blocked:
  assumes m: "currentFn (execs s e) = Some (Async b)" and rb: "run_body True b = (es, Threw v)"
    and p: "pst (proms s (Result e)) = Pending" and r: "reactions (proms s (Result e)) = []"
  shows "queue (run e s) = queue s @ [React (OnResult e) (Rejected v), Microtask e]"
  using assms by (simp add: run_def prim_defs)

lemma takeWhile_append_mem:
  "x \<in> set (takeWhile P q) \<Longrightarrow> x \<in> set (takeWhile P (q @ js))"
  by (induction q) auto

lemma no_microtask: "microtasks_of s = [] \<Longrightarrow> Microtask e \<notin> set (queue s)"
  by (auto simp: microtasks_of_def filter_empty_conv)

section \<open>The remainder begins only behind a call that left the way free\<close>

lemma blocked_advance:
  assumes b: "blocked ms s c" and a: "advances s c" and c: "c \<le> length ms"
  shows "starts (ms ! (c - 1))"
proof (rule ccontr)
  assume "\<not> starts (ms ! (c - 1))"
  with b c have "asyncMiddlewareFailed (execs s (c - 1)) \<or>
      Microtask (c - 1) \<notin> set (queue s) \<or>
      (\<exists>v. React (OnResult (c - 1)) (Rejected v) \<in>
             set (takeWhile (\<lambda>j. j \<noteq> Microtask (c - 1)) (queue s)))"
    by (simp add: blocked_def)
  with a show False by (auto simp: advances_def)
qed

lemma blocked_step:
  assumes i: "inv ms h s c" and f: "fresh ms s c" and b: "blocked ms s c"
  shows "blocked ms (step s) (if advances s c then Suc c else c)"
  using i
proof (cases rule: step_cases)
  case idle
  with b show ?thesis by simp
next
  case (skip q)
  with b show ?thesis by (simp add: blocked_def)
next
  case (job j q)
  let ?e = "c - 1"
  let ?s' = "exec_job j (s\<lparr>queue := q\<rparr>)"
  from extends_exec_job [of "s\<lparr>queue := q\<rparr>" j] obtain js
    where js: "queue ?s' = q @ js" by (auto simp: extends_def)
  have "blocked ms ?s' c"
    unfolding blocked_def
  proof (intro impI)
    assume a: "c \<le> length ms \<and> \<not> starts (ms ! ?e)"
    with b consider (fl) "asyncMiddlewareFailed (execs s ?e)"
      | (no) "Microtask ?e \<notin> set (queue s)"
      | (hd) v where "React (OnResult ?e) (Rejected v) \<in>
             set (takeWhile (\<lambda>j. j \<noteq> Microtask ?e) (queue s))"
      by (auto simp: blocked_def)
    then show "asyncMiddlewareFailed (execs ?s' ?e) \<or> Microtask ?e \<notin> set (queue ?s') \<or>
        (\<exists>v. React (OnResult ?e) (Rejected v) \<in> set (takeWhile (\<lambda>j. j \<noteq> Microtask ?e) (queue ?s')))"
    proof cases
      case fl
      with failed_exec_job_mono [OF job(2), of "s\<lparr>queue := q\<rparr>" ?e] show ?thesis by simp
    next
      case no
      with job(1,2) have "filter is_microtask (queue s) = filter is_microtask q"
        by simp
      have "microtasks_of ?s' = microtasks_of (s\<lparr>queue := q\<rparr>)"
        by (rule exec_job_obs(2) [OF job(2)])
      then have "filter is_microtask (queue ?s') = filter is_microtask q"
        by (simp add: microtasks_of_def)
      moreover from no job(1) have "Microtask ?e \<notin> set q" by simp
      ultimately have "Microtask ?e \<notin> set (filter is_microtask (queue ?s'))" by simp
      then show ?thesis by simp
    next
      case hd
      show ?thesis
      proof (cases "j = React (OnResult ?e) (Rejected v)")
        case True
        with failed_OnResult [of ?e v "s\<lparr>queue := q\<rparr>"] show ?thesis by simp
      next
        case False
        from job(2) have "j \<noteq> Microtask ?e" by auto
        with hd job(1) False have "React (OnResult ?e) (Rejected v) \<in>
            set (takeWhile (\<lambda>j. j \<noteq> Microtask ?e) q)" by simp
        from takeWhile_append_mem [OF this, of js] js show ?thesis by auto
      qed
    qed
  qed
  with job show ?thesis by simp
next
  case (advance e q)
  let ?s1 = "s\<lparr>queue := q\<rparr>"
  from i have ic: "inv_calls ms h s c" and t: "typed ms h s c" by (simp_all add: inv_def)
  from ic advance(1) have mq: "filter is_microtask q = []"
    by (auto simp: inv_calls_def microtasks_of_def)
  then have nm: "Microtask x \<notin> set q" for x
    by (auto simp: filter_empty_conv)
  have "blocked ms (runRemaining e ?s1) (Suc c)"
    unfolding blocked_def
  proof (intro impI)
    assume a: "Suc c \<le> length ms \<and> \<not> starts (ms ! (Suc c - 1))"
    with advance(2) have cl: "Suc e < length ms" and st: "\<not> starts (ms ! Suc e)" by auto
    then have d: "drop (Suc e) ms = ms ! Suc e # drop (Suc (Suc e)) ms"
      by (simp add: Cons_nth_drop_Suc)
    let ?s2 = "?s1\<lparr>execs := (execs ?s1)(Suc e := new_Executor (remaining (execs ?s1 e)) (apiRouteFn (execs ?s1 e)))\<rparr>"
    from advance(4) d have cf: "currentFn (execs ?s2 (Suc e)) = Some (ms ! Suc e)"
      by (simp add: new_Executor_def)
    have rs: "runRemaining e ?s1 = subscribe (Internal (Suc e)) (OnRemaining e) (run (Suc e) ?s2)"
      using advance(4) d by (simp add: runRemaining_def)
    from extends_subscribe [of "run (Suc e) ?s2" "Internal (Suc e)" "OnRemaining e"]
    obtain B where B: "queue (runRemaining e ?s1) = queue (run (Suc e) ?s2) @ B"
      unfolding rs extends_def by blast
    show "asyncMiddlewareFailed (execs (runRemaining e ?s1) (Suc c - 1)) \<or>
        Microtask (Suc c - 1) \<notin> set (queue (runRemaining e ?s1)) \<or>
        (\<exists>v. React (OnResult (Suc c - 1)) (Rejected v) \<in>
           set (takeWhile (\<lambda>j. j \<noteq> Microtask (Suc c - 1)) (queue (runRemaining e ?s1))))"
    proof (cases "ms ! Suc e")
      case (Sync b)
      with st have "\<not> returns_normally (ms ! Suc e)" by simp
      with cf have "microtasks_of (run (Suc e) ?s2) = microtasks_of ?s2"
        by (simp add: run_obs)
      also have "\<dots> = []" using mq by (simp add: microtasks_of_def)
      finally have 1: "Microtask x \<notin> set (queue (run (Suc e) ?s2))" for x
        by (rule no_microtask)
      have "microtasks_of (runRemaining e ?s1) = microtasks_of ?s1 @ []"
        using advance(4) d \<open>\<not> returns_normally (ms ! Suc e)\<close> by (simp add: runRemaining_obs)
      then have "microtasks_of (runRemaining e ?s1) = []" using mq by (simp add: microtasks_of_def)
      from no_microtask [OF this] show ?thesis by simp
    next
      case (Async b)
      with st obtain es v where rb: "run_body True b = (es, Threw v)"
        by (cases "run_body True b"; cases "snd (run_body True b)") auto
      from f advance(2) have pp: "pst (proms ?s2 (Result (Suc e))) = Pending"
        by (auto simp: fresh_def)
      have rr: "reactions (proms ?s2 (Result (Suc e))) = []"
      proof (cases "reactions (proms s (Result (Suc e)))")
        case Nil
        then show ?thesis by simp
      next
        case (Cons r rs)
        with t have "ok_reaction ms h c (Result (Suc e)) r" by (auto simp: typed_def)
        with advance(2) show ?thesis by (cases r) (auto simp: rem_promise_def split: if_splits)
      qed
      from cf Async have cf': "currentFn (execs ?s2 (Suc e)) = Some (Async b)" by simp
      from run_blocked [OF cf' rb pp rr] B
      have qq: "queue (runRemaining e ?s1) =
          (q @ [React (OnResult (Suc e)) (Rejected v)]) @ Microtask (Suc e) # B" by simp
      have "\<forall>x\<in>set (q @ [React (OnResult (Suc e)) (Rejected v)]). x \<noteq> Microtask (Suc e)"
        using nm by auto
      then have "takeWhile (\<lambda>j. j \<noteq> Microtask (Suc e)) (queue (runRemaining e ?s1)) =
          q @ [React (OnResult (Suc e)) (Rejected v)]"
        unfolding qq by (subst takeWhile_append2) auto
      with advance(2) show ?thesis by auto
    qed
  qed
  with advance show ?thesis by simp
qed

lemma blocked_init:
  assumes "ms \<noteq> []"
  shows "blocked ms (finalRouteHandler ms h) 1"
  unfolding blocked_def
proof (intro impI)
  assume a: "1 \<le> length ms \<and> \<not> starts (ms ! (1 - 1))"
  obtain m r where ms: "ms = m # r" using assms by (cases ms) auto
  let ?s0 = "init\<lparr>execs := (execs init)(0 := new_Executor ms h)\<rparr>"
  let ?f = "finalRouteHandler ms h"
  from ms have cf: "currentFn (execs ?s0 0) = Some m" by (simp add: new_Executor_def)
  from a ms have st: "\<not> starts m" by simp
  from extends_subscribe [of "run 0 ?s0" "Internal 0" OnFinal]
  obtain B where B: "queue ?f = queue (run 0 ?s0) @ B"
    unfolding finalRouteHandler_def extends_def by blast
  show "asyncMiddlewareFailed (execs ?f (1 - 1)) \<or> Microtask (1 - 1) \<notin> set (queue ?f) \<or>
      (\<exists>v. React (OnResult (1 - 1)) (Rejected v) \<in>
         set (takeWhile (\<lambda>j. j \<noteq> Microtask (1 - 1)) (queue ?f)))"
  proof (cases m)
    case (Sync b)
    with st ms have "\<not> returns_normally (ms ! 0)" by simp
    with inv_calls_init [OF assms, of h] have "microtasks_of ?f = []"
      by (simp add: inv_calls_def)
    from no_microtask [OF this] show ?thesis by simp
  next
    case (Async b)
    with st obtain es v where rb: "run_body True b = (es, Threw v)"
      by (cases "run_body True b"; cases "snd (run_body True b)") auto
    from cf Async have cf': "currentFn (execs ?s0 0) = Some (Async b)" by simp
    have "pst (proms ?s0 (Result 0)) = Pending" "reactions (proms ?s0 (Result 0)) = []"
      by simp_all
    from run_blocked [OF cf' rb this] B
    have qq: "queue ?f = [React (OnResult 0) (Rejected v)] @ Microtask 0 # B" by simp
    have "takeWhile (\<lambda>j. j \<noteq> Microtask 0) (queue ?f) = [React (OnResult 0) (Rejected v)]"
      unfolding qq by (subst takeWhile_append2) auto
    then show ?thesis by auto
  qed
qed

lemma inv_run_init: "ms \<noteq> [] \<Longrightarrow> inv_run ms h (finalRouteHandler ms h) 1"
  unfolding inv_run_def
  using inv_gate_init [of ms h] blocked_init [of ms h] stall_val_init [of ms h]
  by (simp add: passed_def)

lemma inv_run_step:
  assumes "inv_run ms h s c"
  shows "inv_run ms h (step s) (if advances s c then Suc c else c)"
proof -
  from assms have g: "inv_gate ms h s c" and b: "blocked ms s c" and p: "passed ms c"
    and v: "stall_val ms s c" by (simp_all add: inv_run_def)
  from g have i: "inv ms h s c" and f: "fresh ms s c"
    by (simp_all add: inv_gate_def inv_all_def)
  have "passed ms (Suc c)" if a: "advances s c"
  proof -
    from i a have "c \<le> length ms" "0 < c"
      by (auto simp: inv_def inv_calls_def advances_def microtasks_of_def)
    with blocked_advance [OF b a] p show ?thesis
      by (auto simp: passed_def less_Suc_eq)
  qed
  with inv_gate_step [OF g] blocked_step [OF i f b] stall_val_step [OF i f v] p
  show ?thesis unfolding inv_run_def by auto
qed

lemma inv_run_drain: "inv_run ms h s c \<Longrightarrow> \<exists>c'. c \<le> c' \<and> inv_run ms h (drain n s) c'"
proof (induction n arbitrary: s c)
  case 0
  then show ?case by auto
next
  case (Suc n)
  let ?c = "if advances s c then Suc c else c"
  from Suc.IH [OF inv_run_step [OF Suc.prems]] obtain c'
    where "?c \<le> c'" "inv_run ms h (drain n (step s)) c'" by blast
  then show ?case by (auto split: if_splits intro: exI [of _ c'])
qed

lemma inv_run_reachable: "ms \<noteq> [] \<Longrightarrow> \<exists>c. inv_run ms h (makeMiddlewareExecutor ms h n) c"
  unfolding makeMiddlewareExecutor_def using inv_run_drain [OF inv_run_init] by blast

text \<open>The remainder of a middleware begins only if its call left the way free.\<close>

lemma began_starts:
  assumes ne: "ms \<noteq> []" and b: "began e (makeMiddlewareExecutor ms h n)"
  shows "e < length ms \<and> starts (ms ! e)"
proof -
  from inv_run_reachable [OF ne] obtain c where i: "inv_run ms h (makeMiddlewareExecutor ms h n) c"
    by blast
  then have ic: "inv_calls ms h (makeMiddlewareExecutor ms h n) c" and p: "passed ms c"
    by (simp_all add: inv_run_def inv_gate_def inv_all_def inv_def)
  from inv_calls_began [OF ic ne, of e] b have "Suc e < c" "e < length ms" by simp_all
  with p show ?thesis by (simp add: passed_def)
qed

text \<open>What a middleware throws by the time its call returns is what the promise that
  carries it is rejected with, as soon as the middleware has been called.\<close>

lemma thrown_settles:
  assumes ne: "ms \<noteq> []" and e: "e < length ms" "thrown (ms ! e) = Some v"
    and c: "MwCall e \<in> set (log (makeMiddlewareExecutor ms h n))"
  shows "pst (proms (makeMiddlewareExecutor ms h n) (own ms e)) = Rejected v"
proof -
  from inv_run_reachable [OF ne] obtain c' where i: "inv_run ms h (makeMiddlewareExecutor ms h n) c'"
    by blast
  then have ic: "inv_calls ms h (makeMiddlewareExecutor ms h n) c'"
    and v: "stall_val ms (makeMiddlewareExecutor ms h n) c'"
    by (simp_all add: inv_run_def inv_gate_def inv_all_def inv_def)
  from inv_calls_called [OF ic] c have "e < c'" by simp
  with v e show ?thesis by (simp add: stall_val_def)
qed

section \<open>Rejection below a synchronous prefix, and the log of a synchronous chain\<close>

text \<open>An asynchronous middleware below a synchronous prefix whose promise is rejected when
  its call returns: the rejection handler runs, the microtask of line 98 finds the flag
  set, and the error is on its way back up.\<close>

lemma asc_reject:
  assumes a: "asc ms h s c" and lt: "c < length ms"
    and m: "ms ! c = Async b" and rb: "run_body True b = (es, Threw v)"
  shows "desc (drain 3 s) c v"
proof -
  note f = asc_facts [OF a]
  from lt have d: "drop c ms = ms ! c # drop (Suc c) ms" by (simp add: Cons_nth_drop_Suc)
  from a have w: "waiting s c" and fr: "\<forall>e\<ge>c. proms s (Internal e) = \<lparr>pst = Pending, reactions = []\<rparr>"
    and fr2: "\<forall>e\<ge>c. proms s (Result e) = \<lparr>pst = Pending, reactions = []\<rparr>"
    by (simp_all add: asc_def)
  from f(1) obtain e where e: "c = Suc e" by (cases c) auto
  let ?x = "(new_Executor (drop c ms) h)\<lparr>result := Some (Result c)\<rparr>"
  have s1: "step s = s\<lparr> queue := [React (OnResult c) (Rejected v), Microtask c],
      execs := (execs s)(c := ?x),
      log := log s @ MwCall c # es @ [Settle (Result c) (Rejected v)],
      proms := (proms s)(Result c := \<lparr>pst = Rejected v, reactions = []\<rparr>,
                 Internal c := \<lparr>pst = Pending, reactions = [OnRemaining e]\<rparr>) \<rparr>"
    using f fr fr2 e m rb d
    by (simp add: step_def runRemaining_def run_def prim_defs new_Executor_def fun_upd_twist)
  have s2: "step (step s) = s\<lparr> queue := [Microtask c, React (OnRemaining e) (Rejected v)],
      execs := (execs s)(c := ?x\<lparr>asyncMiddlewareFailed := True\<rparr>),
      log := log s @ MwCall c # es @ [Settle (Result c) (Rejected v), Settle (Internal c) (Rejected v)],
      proms := (proms s)(Result c := \<lparr>pst = Rejected v, reactions = []\<rparr>,
                 Internal c := \<lparr>pst = Rejected v, reactions = []\<rparr>) \<rparr>"
    unfolding s1 by (simp add: step_def prim_defs)
  have s3: "step (step (step s)) = s\<lparr> queue := [React (OnRemaining e) (Rejected v)],
      execs := (execs s)(c := ?x\<lparr>asyncMiddlewareFailed := True\<rparr>),
      log := log s @ MwCall c # es @ [Settle (Result c) (Rejected v), Settle (Internal c) (Rejected v)],
      proms := (proms s)(Result c := \<lparr>pst = Rejected v, reactions = []\<rparr>,
                 Internal c := \<lparr>pst = Rejected v, reactions = []\<rparr>) \<rparr>"
    unfolding s2 by (simp add: step_def)
  have "drain 3 s = step (step (step s))" by (simp add: eval_nat_numeral)
  with w e show ?thesis
    by (auto simp: desc_def waiting_def s3 parent_def)
qed

lemma async_reject_outcome:
  assumes k: "k < length ms" and m: "ms ! k = Async b" and rb: "run_body True b = (es, Threw v)"
    and pre: "\<forall>i<k. sync_ok (ms ! i)" and t: "k = 0 \<or> truthy v" and n: "2 * k + 3 \<le> n"
  shows "outcome (makeMiddlewareExecutor ms h n) = Rejected v"
proof (cases k)
  case 0
  with k m have "ms = Async b # tl ms" by (cases ms) auto
  from imm_reject_outcome(2) [OF this rb, of n h] n show ?thesis by simp
next
  case (Suc j)
  let ?s0 = "finalRouteHandler ms h"
  from Suc k pre have "asc ms h (drain (k - 1) ?s0) k"
    by (intro asc_drain) auto
  from asc_reject [OF this k m rb] have d: "desc (drain 3 (drain (k - 1) ?s0)) k v" .
  from Suc have "2 * k + 3 = (k - 1) + (3 + Suc k)" by simp
  then have "drain (2 * k + 3) ?s0 = drain (Suc k) (drain 3 (drain (k - 1) ?s0))"
    by (simp only: drain_add)
  with desc_drain [OF d t] have o: "outcome (drain (2 * k + 3) ?s0) = Rejected v"
    by simp
  from outcome_stable [of "2 * k + 3" ?s0 n] o n show ?thesis
    by (simp add: makeMiddlewareExecutor_def)
qed

text \<open>The log of a chain of synchronous middleware that return normally, up to the call of
  the route handler.\<close>

lemma log_runRemaining_last:
  assumes "remaining (execs s e) = []"
  shows "\<exists>xs. log (runRemaining e s) = log s @ RouteCall e # xs"
proof (cases "apiRouteFn (execs s e)")
  case (Sync hb)
  obtain es r where c: "call_sync False hb = (es, r)" by (cases "call_sync False hb")
  show ?thesis
  proof (cases r)
    case None
    with assms Sync c show ?thesis by (simp add: runRemaining_def prim_defs)
  next
    case (Some err)
    from extends_finish [of "emit (RouteCall e # es) s" e err] obtain ys
      where "log (finish e err (emit (RouteCall e # es) s)) = log (emit (RouteCall e # es) s) @ ys"
      unfolding extends_def by blast
    with assms Sync c Some show ?thesis by (simp add: runRemaining_def emit_def)
  qed
next
  case (Async hb)
  let ?x = "suspend (RouteResult e) (run_body False hb) (emit [RouteCall e] s)"
  from extends_suspend [of "emit [RouteCall e] s" "RouteResult e" "run_body False hb"] obtain ys
    where 1: "log ?x = log (emit [RouteCall e] s) @ ys" unfolding extends_def by blast
  from extends_subscribe [of ?x "RouteResult e" "OnRemaining e"] obtain zs
    where 2: "log (subscribe (RouteResult e) (OnRemaining e) ?x) = log ?x @ zs"
    unfolding extends_def by blast
  from 1 2 assms Async show ?thesis by (simp add: runRemaining_def emit_def)
qed

lemma sync_chain_log:
  assumes ne: "ms \<noteq> []" and ok: "\<forall>m\<in>set ms. sync_ok m" and n: "length ms \<le> n"
  shows "\<exists>rest. log (makeMiddlewareExecutor ms h n) =
           sync_log ms (length ms) @ RouteCall (length ms - 1) # rest"
proof -
  let ?init = "finalRouteHandler ms h"
  let ?N = "length ms"
  from ne have 0: "0 < ?N" by simp
  from ok have "\<forall>i<?N. sync_ok (ms ! i)" by simp
  from asc_drain [OF 0 le_refl this]
  have a: "asc ms h (drain (?N - 1) ?init) ?N" .
  let ?t = "drain (?N - 1) ?init"
  note f = asc_facts [OF a]
  from a have lg: "log ?t = sync_log ms ?N" by (simp add: asc_def)
  from f(4) have r0: "remaining (execs (?t\<lparr>queue := []\<rparr>) (?N - 1)) = []" by simp
  from log_runRemaining_last [OF r0] obtain xs
    where "log (runRemaining (?N - 1) (?t\<lparr>queue := []\<rparr>)) = log ?t @ RouteCall (?N - 1) # xs"
    by auto
  with f(3,6) lg have 1: "log (step ?t) = sync_log ms ?N @ RouteCall (?N - 1) # xs"
    by (simp add: step_def)
  from n 0 have nn: "n = (?N - 1) + Suc (n - ?N)" by arith
  have "drain ((?N - 1) + Suc (n - ?N)) ?init = drain (Suc (n - ?N)) ?t" by (rule drain_add)
  with nn have "makeMiddlewareExecutor ms h n = drain (n - ?N) (step ?t)"
    unfolding makeMiddlewareExecutor_def by simp
  moreover from evolves_drain [of "step ?t" "n - ?N"] obtain ys
    where "log (drain (n - ?N) (step ?t)) = log (step ?t) @ ys"
    unfolding evolves_def by blast
  ultimately show ?thesis using 1 by simp
qed

text \<open>With the empty list nothing is ever called: the first executor fails at line 71.\<close>

lemma empty_list_run:
  "drain (Suc n) (finalRouteHandler [] h) = init\<lparr>
      queue := [],
      execs := (execs init)(0 := new_Executor [] h),
      log := [Settle (Internal 0) (Rejected (TypeErrorObj ''this.currentFn is not a function'')),
              Settle Final (Rejected (TypeErrorObj ''this.currentFn is not a function''))],
      proms := (proms init)(Internal 0 := \<lparr>pst = Rejected (TypeErrorObj ''this.currentFn is not a function''), reactions = []\<rparr>,
                 Final := \<lparr>pst = Rejected (TypeErrorObj ''this.currentFn is not a function''), reactions = []\<rparr>) \<rparr>"
proof -
  have 1: "step (finalRouteHandler [] h) = init\<lparr>
      queue := [],
      execs := (execs init)(0 := new_Executor [] h),
      log := [Settle (Internal 0) (Rejected (TypeErrorObj ''this.currentFn is not a function'')),
              Settle Final (Rejected (TypeErrorObj ''this.currentFn is not a function''))],
      proms := (proms init)(Internal 0 := \<lparr>pst = Rejected (TypeErrorObj ''this.currentFn is not a function''), reactions = []\<rparr>,
                 Final := \<lparr>pst = Rejected (TypeErrorObj ''this.currentFn is not a function''), reactions = []\<rparr>) \<rparr>"
    by (simp add: finalRouteHandler_def run_def prim_defs step_def new_Executor_def)
  have "drain (Suc n) (finalRouteHandler [] h) = drain n (step (finalRouteHandler [] h))" by simp
  also have "\<dots> = step (finalRouteHandler [] h)" by (rule drain_idle) (simp add: 1)
  finally show ?thesis using 1 by simp
qed

lemma empty_list_calls: "calls_of (makeMiddlewareExecutor [] h n) = []"
proof (cases n)
  case 0
  then show ?thesis
    by (simp add: makeMiddlewareExecutor_def finalRouteHandler_def run_def prim_defs
        new_Executor_def calls_of_def)
next
  case (Suc k)
  then show ?thesis
    by (simp add: makeMiddlewareExecutor_def empty_list_run calls_of_def del: drain.simps)
qed

section \<open>The rest of runRemaining\<close>

lemma extends_settled': "extends s s' \<Longrightarrow> pst (proms s p) \<noteq> Pending \<Longrightarrow> pst (proms s' p) \<noteq> Pending"
  unfolding extends_def by metis

lemma finished_finish:
  assumes "isPromise (result (execs s e)) = is_async (ms ! e)"
  shows "finished ms (finish e v s) e"
  using assms by (auto simp: finished_def fin_promise_def finish_def prim_defs)

lemma exec_OnRemaining:
  assumes "isPromise (result (execs s e)) = is_async (ms ! e)"
  shows "finished ms (exec_job (React (OnRemaining e) st) s) e"
  using finished_finish [OF assms] by (cases st) simp_all

lemma results_ok_promise:
  "results_ok ms s c \<Longrightarrow> e < c \<Longrightarrow> e < length ms \<Longrightarrow>
   isPromise (result (execs s e)) = is_async (ms ! e)"
  by (simp add: results_ok_def isPromise_def)

lemma rem_wired_step:
  assumes i: "inv_all ms h s c" and w: "rem_wired ms h s c"
  shows "rem_wired ms h (step s) (if advances s c then Suc c else c)"
proof -
  from i have f: "frame_ok ms s" and iv: "inv ms h s c" and ro: "results_ok ms s c"
    by (simp_all add: inv_all_def)
  have stable: "finished ms (step s) e" if "finished ms s e" for e
    using extends_settled' [OF extends_step, of s "fin_promise ms e"] that
    by (simp add: finished_def)
  have head: "finished ms (step s) e"
    if q: "queue s = React (OnRemaining e) st # q" and e: "e < c" "e < length ms" for e st q
    unfolding step_head [OF q]
    by (rule exec_OnRemaining) (use results_ok_promise [OF ro e] in simp)
  have old: "rem_wire ms h (step s) e" if e: "Suc e < c" "e < length ms" for e
  proof (cases "Suc e < length ms \<or> is_async h")
    case True
    with w e have "wire s (rem_promise ms e) (OnRemaining e) (finished ms s e)"
      by (simp add: rem_wired_def rem_wire_def)
    then have "wire (step s) (rem_promise ms e) (OnRemaining e) (finished ms (step s) e)"
    proof (rule wire_step [OF _ f])
      fix q assume "queue s = React (OnRemaining e) (pst (proms s (rem_promise ms e))) # q"
      from head [OF this] e show "finished ms (step s) e" by simp
    next
      assume "finished ms s e"
      then show "finished ms (step s) e" by (rule stable)
    qed
    with True show ?thesis by (simp add: rem_wire_def)
  next
    case False
    with w e have a: "finished ms s e \<or> React (OnRemaining e) Fulfilled \<in> set (queue s)"
      by (simp add: rem_wired_def rem_wire_def)
    have "finished ms (step s) e \<or> React (OnRemaining e) Fulfilled \<in> set (queue (step s))"
    proof (cases "finished ms s e")
      case True
      then show ?thesis by (simp add: stable)
    next
      case nf: False
      with a obtain j q where q: "queue s = j # q" and m: "React (OnRemaining e) Fulfilled \<in> set (j # q)"
        by (cases "queue s") auto
      show ?thesis
      proof (cases "j = React (OnRemaining e) Fulfilled")
        case True
        with head [where st = Fulfilled and q = q and e = e] q e show ?thesis by simp
      next
        case False
        with m have "React (OnRemaining e) Fulfilled \<in> set q" by simp
        moreover from extends_pop_step [OF q] obtain js where "queue (step s) = q @ js"
          by (auto simp: extends_def)
        ultimately show ?thesis by simp
      qed
    qed
    with False show ?thesis by (simp add: rem_wire_def)
  qed
  show ?thesis
    using iv
  proof (cases rule: step_cases)
    case (advance e q)
    let ?s1 = "s\<lparr>queue := q\<rparr>"
    have "rem_wire ms h (step s) e"
    proof (cases "Suc e < length ms")
      case True
      then have d: "drop (Suc e) ms = ms ! Suc e # drop (Suc (Suc e)) ms"
        by (simp add: Cons_nth_drop_Suc)
      from advance(4,6) d have "\<exists>x. step s = subscribe (Internal (Suc e)) (OnRemaining e) x"
        by (auto simp: runRemaining_def)
      then obtain x where "step s = subscribe (rem_promise ms e) (OnRemaining e) x"
        using True by (auto simp: rem_promise_def)
      with True wire_subscribe [of "rem_promise ms e" "OnRemaining e" x] show ?thesis
        by (simp add: rem_wire_def)
    next
      case False
      with advance have r0: "remaining (execs ?s1 e) = []" "Suc e = length ms" by auto
      show ?thesis
      proof (cases h)
        case (Async hb)
        with advance(5,6) r0 have "\<exists>x. step s = subscribe (RouteResult e) (OnRemaining e) x"
          by (auto simp: runRemaining_def)
        then obtain x where "step s = subscribe (rem_promise ms e) (OnRemaining e) x"
          using False by (auto simp: rem_promise_def)
        with Async wire_subscribe [of "rem_promise ms e" "OnRemaining e" x] show ?thesis
          by (simp add: rem_wire_def)
      next
        case (Sync hb)
        obtain es r' where c: "call_sync False hb = (es, r')" by (cases "call_sync False hb")
        from advance(2,3) have "e < c" by simp
        from results_ok_promise [OF ro this advance(3)]
        have p: "isPromise (result (execs (emit es' ?s1) e)) = is_async (ms ! e)" for es'
          by simp
        show ?thesis
        proof (cases r')
          case None
          with advance(5,6) r0 Sync c show ?thesis
            by (simp add: runRemaining_def rem_wire_def enqueue_def emit_def)
        next
          case (Some err)
          with advance(5,6) r0 Sync c have "step s = finish e err (emit (RouteCall e # es) ?s1)"
            by (simp add: runRemaining_def)
          with finished_finish [OF p, where v = err and es'1 = "RouteCall e # es"] Sync r0 show ?thesis
            by (simp add: rem_wire_def)
        qed
      qed
    qed
    with old advance(2,7) show ?thesis by (auto simp: rem_wired_def less_Suc_eq)
  qed (use old in \<open>auto simp: rem_wired_def\<close>)
qed

lemma rem_wired_init: "rem_wired ms h s 1"
  by (simp add: rem_wired_def)

section \<open>Suspended functions\<close>

lemma filter_cont_map:
  "filter (is_cont q) (map (\<lambda>r. React r st) rs) = map (\<lambda>r. React r st) (filter (is_contr q) rs)"
  by (induction rs) auto

lemma conts_same:
  "queue s' = queue s \<Longrightarrow> proms s' = proms s \<Longrightarrow> conts s' q = conts s q"
  by (simp add: conts_def)

lemma tidy_same: "proms s' = proms s \<Longrightarrow> tidy s' = tidy s"
  by (simp add: tidy_def)

lemma conts_prims [simp]:
  "conts (emit es s) q = conts s q"
  "conts (set_result e x s) q = conts s q"
  "conts (set_failed e s) q = conts s q"
  "conts (s\<lparr>execs := xs\<rparr>) q = conts s q"
  "conts (enqueue j s) q = conts s q + (if is_cont q j then 1 else 0)"
  by (simp_all add: conts_def prim_defs)

lemma tidy_prims [simp]:
  "tidy (emit es s) = tidy s"
  "tidy (set_result e x s) = tidy s"
  "tidy (set_failed e s) = tidy s"
  "tidy (s\<lparr>execs := xs\<rparr>) = tidy s"
  "tidy (s\<lparr>queue := js\<rparr>) = tidy s"
  "tidy (enqueue j s) = tidy s"
  by (simp_all add: tidy_def prim_defs)

lemma tidy_settle: "tidy s \<Longrightarrow> tidy (settle p st s)"
  by (auto simp: tidy_def settle_def)

lemma conts_settle:
  assumes "tidy s"
  shows "conts (settle p st s) q = conts s q"
proof (cases "pst (proms s p) = Pending")
  case False
  then show ?thesis by (simp add: settle_def)
next
  case True
  show ?thesis
  proof (cases "p = Teardown (owner q)")
    case t: True
    with True show ?thesis by (simp add: conts_def settle_def filter_cont_map)
  next
    case False
    with assms have "filter (is_contr q) (reactions (proms s p)) = []"
      by (auto simp: tidy_def filter_empty_conv)
    with True False show ?thesis by (simp add: conts_def settle_def filter_cont_map)
  qed
qed

lemma conts_subscribe_other:
  "\<not> is_contr q r \<Longrightarrow> conts (subscribe p r s) q = conts s q"
  by (simp add: conts_def subscribe_def enqueue_def)

lemma tidy_subscribe_other:
  "\<forall>q. \<not> is_contr q r \<Longrightarrow> tidy s \<Longrightarrow> tidy (subscribe p r s)"
  by (auto simp: tidy_def subscribe_def enqueue_def)

lemma conts_subscribe_cont:
  "conts (subscribe (Teardown (owner q')) (Continue q' src k) s) q =
     conts s q + (if q = q' then 1 else 0)"
  by (auto simp: conts_def subscribe_def enqueue_def)

lemma tidy_subscribe_cont:
  "tidy s \<Longrightarrow> tidy (subscribe (Teardown (owner q')) (Continue q' src k) s)"
  by (auto simp: tidy_def subscribe_def enqueue_def)

lemma conts_suspend:
  assumes "tidy s"
  shows "conts (suspend q' r s) q = conts s q + (if q = q' \<and> awaiting r then 1 else 0)"
    and "tidy (suspend q' r s)"
  using assms
  by (cases r; cases "snd r";
      auto simp: conts_settle tidy_settle conts_subscribe_cont tidy_subscribe_cont)+

lemma pend_suspend:
  assumes "is_co q'"
  shows "pst (proms (suspend q' r s) q) = Pending \<longleftrightarrow>
         pst (proms s q) = Pending \<and> (q = q' \<longrightarrow> awaiting r)"
  using assms by (cases r; cases "snd r"; cases q') (auto simp: prim_defs)

lemma conts_finish:
  assumes "tidy s"
  shows "conts (finish e v s) q = conts s q" and "tidy (finish e v s)"
  using assms by (simp_all add: finish_def succeed_def fail_def conts_settle tidy_settle)

lemma pend_finish:
  "is_co q \<Longrightarrow> pst (proms (finish e v s) q) = pst (proms s q)"
  by (cases q) (auto simp: finish_def prim_defs)

lemma conts_run:
  assumes "tidy s"
  shows "conts (run e s) q = conts s q + (if q = Result e \<and> run_awaits s e then 1 else 0)"
    and "tidy (run e s)"
proof -
  have t: "tidy (emit es s)" for es using assms by simp
  note cs = conts_suspend [OF t]
  show "conts (run e s) q = conts s q + (if q = Result e \<and> run_awaits s e then 1 else 0)"
    using assms
    by (auto simp: run_def run_awaits_def fail_def conts_settle conts_subscribe_other cs
        split: option.splits fn.splits prod.splits)
  show "tidy (run e s)"
    using assms
    by (auto simp: run_def fail_def tidy_settle tidy_subscribe_other cs
        split: option.splits fn.splits prod.splits)
qed

lemma pend_run:
  assumes "is_co q"
  shows "pst (proms (run e s) q) = Pending \<longleftrightarrow>
         pst (proms s q) = Pending \<and>
         (q = Result e \<longrightarrow> (\<forall>b. currentFn (execs s e) = Some (Async b) \<longrightarrow> awaiting (run_body True b)))"
proof (cases "currentFn (execs s e)")
  case None
  with assms show ?thesis by (cases q) (auto simp: run_def prim_defs)
next
  case (Some m)
  show ?thesis
  proof (cases m)
    case (Sync b)
    with Some assms show ?thesis
      by (cases q) (auto simp: run_def prim_defs split: prod.splits option.splits)
  next
    case (Async b)
    have "pst (proms (run e s) q) =
        pst (proms (suspend (Result e) (run_body True b) (emit [MwCall e] s)) q)"
      using Some Async by (simp add: run_def prim_defs)
    with pend_suspend [of "Result e" "run_body True b" "emit [MwCall e] s" q] Some Async
    show ?thesis by (simp add: emit_def)
  qed
qed

section \<open>One continuation per suspended function\<close>

lemma resume_body_case [simp]:
  "(case st of Rejected err \<Rightarrow> Throw err # k | _ \<Rightarrow> k) = resume_body st k"
  by (cases st) simp_all

lemma exec_continue:
  "exec_job (React (Continue p src k) st) s =
     suspend p (run_body (has_next p) (resume_body st k)) (emit [Resume p src st] s)"
  by (cases st) simp_all

lemma conts_runRemaining:
  assumes t: "tidy s" and r: "remaining (execs s e) = drop (Suc e) ms"
    and a: "apiRouteFn (execs s e) = h" and e: "e < length ms"
  shows "conts (runRemaining e s) q =
           conts s q + (if q = new_co ms e \<and> fn_awaits (Suc e < length ms) (new_fn ms h e) then 1 else 0)"
    and "tidy (runRemaining e s)"
proof -
  have te: "tidy (emit es s)" for es using t by simp
  show "conts (runRemaining e s) q =
      conts s q + (if q = new_co ms e \<and> fn_awaits (Suc e < length ms) (new_fn ms h e) then 1 else 0)"
  proof (cases "Suc e < length ms")
    case True
    then have d: "drop (Suc e) ms = ms ! Suc e # drop (Suc (Suc e)) ms"
      by (simp add: Cons_nth_drop_Suc)
    let ?s1 = "s\<lparr>execs := (execs s)(Suc e := new_Executor (remaining (execs s e)) (apiRouteFn (execs s e)))\<rparr>"
    have t1: "tidy ?s1" using t by simp
    have "run_awaits ?s1 (Suc e) = fn_awaits True (ms ! Suc e)"
      using r d by (cases "ms ! Suc e") (simp_all add: run_awaits_def new_Executor_def)
    with conts_run(1) [OF t1, of "Suc e" q] r d True show ?thesis
      by (simp add: runRemaining_def conts_subscribe_other new_co_def new_fn_def)
  next
    case False
    with e r have r0: "remaining (execs s e) = []" by simp
    show ?thesis
    proof (cases h)
      case (Sync hb)
      with r0 a False t show ?thesis
        by (auto simp: runRemaining_def conts_finish new_fn_def split: prod.splits option.splits)
    next
      case (Async hb)
      with r0 a False conts_suspend(1) [OF te, where q' = "RouteResult e" and r = "run_body False hb" and q = q and es1 = "[RouteCall e]"]
      show ?thesis
        by (simp add: runRemaining_def conts_subscribe_other new_co_def new_fn_def)
    qed
  qed
  show "tidy (runRemaining e s)"
    using t conts_suspend(2) [OF te] conts_run(2) conts_finish(2) [OF te]
    by (auto simp: runRemaining_def tidy_subscribe_other split: fn.splits prod.splits option.splits)
qed

lemma pend_runRemaining:
  assumes q: "is_co q" and r: "remaining (execs s e) = drop (Suc e) ms"
    and a: "apiRouteFn (execs s e) = h" and e: "e < length ms"
  shows "pst (proms (runRemaining e s) q) = Pending \<longleftrightarrow>
         pst (proms s q) = Pending \<and>
         (q = new_co ms e \<and> is_async (new_fn ms h e) \<longrightarrow>
            fn_awaits (Suc e < length ms) (new_fn ms h e))"
proof (cases "Suc e < length ms")
  case True
  then have d: "drop (Suc e) ms = ms ! Suc e # drop (Suc (Suc e)) ms"
    by (simp add: Cons_nth_drop_Suc)
  let ?s1 = "s\<lparr>execs := (execs s)(Suc e := new_Executor (remaining (execs s e)) (apiRouteFn (execs s e)))\<rparr>"
  have "pst (proms (runRemaining e s) q) = pst (proms (run (Suc e) ?s1) q)"
    using r d by (simp add: runRemaining_def prim_defs)
  with pend_run [OF q, of "Suc e" ?s1] r d True show ?thesis
    by (cases "ms ! Suc e") (auto simp: new_co_def new_fn_def new_Executor_def)
next
  case False
  with e r have r0: "remaining (execs s e) = []" by simp
  show ?thesis
  proof (cases h)
    case (Sync hb)
    with r0 a False q show ?thesis
      by (auto simp: runRemaining_def pend_finish new_fn_def prim_defs
          split: prod.splits option.splits)
  next
    case (Async hb)
    have "pst (proms (runRemaining e s) q) =
        pst (proms (suspend (RouteResult e) (run_body False hb) (emit [RouteCall e] s)) q)"
      using r0 a Async by (simp add: runRemaining_def prim_defs)
    with pend_suspend [of "RouteResult e" "run_body False hb" "emit [RouteCall e] s" q] False Async
    show ?thesis by (simp add: emit_def new_co_def new_fn_def)
  qed
qed

lemma conts_exec_job:
  assumes t: "tidy s" and n: "\<not> is_microtask j"
  shows "conts (exec_job j s) q = conts s q + (if job_awaits q j then 1 else 0)"
    and "tidy (exec_job j s)"
proof -
  have te: "tidy (emit es s)" for es using t by simp
  obtain r st where j: "j = React r st" using n by (cases j) auto
  show "conts (exec_job j s) q = conts s q + (if job_awaits q j then 1 else 0)"
  proof (cases r)
    case (Continue q' src k)
    with j conts_suspend(1) [OF te] show ?thesis by (auto simp: exec_continue)
  qed (use j t in \<open>auto simp: conts_settle conts_finish succeed_def fail_def split: pstate.splits\<close>)
  show "tidy (exec_job j s)"
  proof (cases r)
    case (Continue q' src k)
    with j conts_suspend(2) [OF te] show ?thesis by (auto simp: exec_continue)
  qed (use j t in \<open>auto simp: tidy_settle conts_finish succeed_def fail_def split: pstate.splits\<close>)
qed

lemma pend_exec_job:
  assumes q: "is_co q" and n: "\<not> is_microtask j"
    and c: "\<And>q' src k st. j = React (Continue q' src k) st \<Longrightarrow> is_co q'"
  shows "pst (proms (exec_job j s) q) = Pending \<longleftrightarrow>
         pst (proms s q) = Pending \<and> (is_cont q j \<longrightarrow> job_awaits q j)"
proof -
  obtain r st where j: "j = React r st" using n by (cases j) auto
  show ?thesis
  proof (cases r)
    case (Continue q' src k)
    with j c have "is_co q'" by simp
    from pend_suspend [OF this, where s = "emit [Resume q' src st] s" and q = q] j Continue
    show ?thesis by (auto simp: exec_continue emit_def)
  next
    case (OnResult e)
    with j q show ?thesis by (cases q; cases st) (auto simp: prim_defs)
  next
    case (OnRemaining e)
    with j q show ?thesis by (cases st) (auto simp: pend_finish)
  next
    case OnFinal
    with j q show ?thesis by (cases q; cases st) (auto simp: prim_defs)
  qed
qed

lemma ok_coroutine_co: "ok_coroutine ms h c q \<Longrightarrow> is_co q"
  by (cases q) auto

lemma ok_coroutine_Suc:
  assumes "Suc e = c" "e < length ms"
  shows "ok_coroutine ms h (Suc c) q \<longleftrightarrow>
         ok_coroutine ms h c q \<or> (q = new_co ms e \<and> is_async (new_fn ms h e))"
  using assms by (cases q) (auto simp: new_co_def new_fn_def less_Suc_eq)

lemma kont_step:
  assumes i: "inv ms h s c" and f: "fresh ms s c" and k: "kont ms h s c"
  shows "kont ms h (step s) (if advances s c then Suc c else c)"
  using i
proof (cases rule: step_cases)
  case idle
  with k show ?thesis by simp
next
  case (skip q)
  have "conts (s\<lparr>queue := q\<rparr>) p = conts s p" for p
    using skip(1) by (simp add: conts_def)
  with k skip show ?thesis by (simp add: kont_def)
next
  case (job j q)
  let ?s1 = "s\<lparr>queue := q\<rparr>"
  from k have t: "tidy ?s1" by (simp add: kont_def)
  have c1: "conts s p = conts ?s1 p + (if is_cont p j then 1 else 0)" for p
    using job(1) by (simp add: conts_def)
  have co: "is_co q'" if "j = React (Continue q' src k) st" for q' src k st
    using job(3) that by (auto dest: ok_coroutine_co)
  have "conts (exec_job j ?s1) p =
      (if ok_coroutine ms h c p \<and> pst (proms (exec_job j ?s1) p) = Pending then 1 else 0)" for p
  proof (cases "is_co p")
    case True
    note pe = pend_exec_job [OF True job(2) co, where s = ?s1]
    from k have kp: "conts s p = (if ok_coroutine ms h c p \<and> pst (proms s p) = Pending then 1 else 0)"
      by (simp add: kont_def)
    show ?thesis
    proof (cases "is_cont p j")
      case c: True
      with c1 kp have "ok_coroutine ms h c p" "pst (proms s p) = Pending" "conts ?s1 p = 0"
        by (auto split: if_splits)
      with conts_exec_job(1) [OF t job(2), of p] pe c show ?thesis by auto
    next
      case c: False
      then have "\<not> job_awaits p j" by (cases j; cases "case j of React r st \<Rightarrow> r") auto
      with conts_exec_job(1) [OF t job(2), of p] pe c c1 kp show ?thesis by auto
    qed
  next
    case False
    then have no: "\<not> ok_coroutine ms h c p" by (auto dest: ok_coroutine_co)
    with k have "conts s p = 0" by (simp add: kont_def)
    with c1 have z: "conts ?s1 p = 0" "\<not> is_cont p j" by (auto split: if_splits)
    then have "\<not> job_awaits p j" by (cases j; cases "case j of React r st \<Rightarrow> r") auto
    with conts_exec_job(1) [OF t job(2), of p] z no show ?thesis by simp
  qed
  with conts_exec_job(2) [OF t job(2)] job show ?thesis by (simp add: kont_def)
next
  case (advance e q)
  let ?s1 = "s\<lparr>queue := q\<rparr>"
  from k have t: "tidy ?s1" by (simp add: kont_def)
  have c1: "conts ?s1 p = conts s p" for p
    using advance(1) by (simp add: conts_def)
  have r: "remaining (execs ?s1 e) = drop (Suc e) ms" "apiRouteFn (execs ?s1 e) = h"
    using advance by simp_all
  note cr = conts_runRemaining [OF t r advance(3)]
  have "conts (runRemaining e ?s1) p =
      (if ok_coroutine ms h (Suc c) p \<and> pst (proms (runRemaining e ?s1) p) = Pending then 1 else 0)" for p
  proof (cases "is_co p")
    case True
    note pe = pend_runRemaining [OF True r advance(3)]
    from k have kp: "conts s p = (if ok_coroutine ms h c p \<and> pst (proms s p) = Pending then 1 else 0)"
      by (simp add: kont_def)
    show ?thesis
    proof (cases "p = new_co ms e")
      case n: True
      with advance(2,3) have no: "\<not> ok_coroutine ms h c p" "\<not> allowed ms c p"
        by (auto simp: new_co_def)
      with f have pp: "pst (proms s p) = Pending" by (simp add: fresh_def)
      from no kp have z: "conts s p = 0" by simp
      have aw: "is_async (new_fn ms h e)" if "fn_awaits nx (new_fn ms h e)" for nx
        using that by (cases "new_fn ms h e") auto
      from cr(1) [of p] pe c1 z pp no ok_coroutine_Suc [OF advance(2,3), of h p] aw n
      show ?thesis by auto
    next
      case n: False
      with cr(1) [of p] pe c1 kp ok_coroutine_Suc [OF advance(2,3), of h p]
      show ?thesis by auto
    qed
  next
    case False
    then have no: "\<not> ok_coroutine ms h c p" "\<not> ok_coroutine ms h (Suc c) p"
      by (auto dest: ok_coroutine_co)
    from False have "p \<noteq> new_co ms e" by (auto simp: new_co_def)
    with k no cr(1) [of p] c1 show ?thesis by (simp add: kont_def)
  qed
  with cr(2) advance show ?thesis by (simp add: kont_def)
qed

lemma kont_init:
  assumes "ms \<noteq> []"
  shows "kont ms h (finalRouteHandler ms h) 1"
proof -
  obtain m r where ms: "ms = m # r" using assms by (cases ms) auto
  let ?s0 = "init\<lparr>execs := (execs init)(0 := new_Executor ms h)\<rparr>"
  have t: "tidy ?s0" by (simp add: tidy_def init_def)
  have c0: "conts ?s0 p = 0" for p by (simp add: conts_def init_def)
  have ra: "run_awaits ?s0 0 = fn_awaits True m"
    by (cases m) (simp_all add: run_awaits_def new_Executor_def ms)
  have cf: "conts (finalRouteHandler ms h) p = (if p = Result 0 \<and> fn_awaits True m then 1 else 0)" for p
    using conts_run(1) [OF t, of 0 p] c0 ra
    by (simp add: finalRouteHandler_def conts_subscribe_other)
  have tf: "tidy (finalRouteHandler ms h)"
    using conts_run(2) [OF t, of 0] by (simp add: finalRouteHandler_def tidy_subscribe_other)
  have pf: "pst (proms (finalRouteHandler ms h) p) = Pending \<longleftrightarrow>
      (p = Result 0 \<and> is_async m \<longrightarrow> fn_awaits True m)" if "is_co p" for p
  proof -
    have "pst (proms (finalRouteHandler ms h) p) = pst (proms (run 0 ?s0) p)"
      by (simp add: finalRouteHandler_def prim_defs)
    with pend_run [OF that, of 0 ?s0] show ?thesis
      by (cases m) (auto simp: ms new_Executor_def init_def)
  qed
  have "conts (finalRouteHandler ms h) p =
      (if ok_coroutine ms h 1 p \<and> pst (proms (finalRouteHandler ms h) p) = Pending then 1 else 0)" for p
  proof (cases "is_co p")
    case True
    have "fn_awaits True m \<Longrightarrow> is_async m" by (cases m) auto
    with cf [of p] pf [OF True] show ?thesis by (cases p) (auto simp: ms)
  next
    case False
    then have "\<not> ok_coroutine ms h 1 p" "p \<noteq> Result 0" by (auto dest: ok_coroutine_co)
    with cf [of p] show ?thesis by simp
  qed
  with tf show ?thesis by (simp add: kont_def)
qed

section \<open>A bound on the length of a run\<close>

lemma unwind_wts: "unwind k = Some k' \<Longrightarrow> wts k' < wts k"
  unfolding wts_def by (induction k rule: unwind.induct) auto

lemma run_body_wts:
  "run_body nx k = (es, r) \<Longrightarrow> cw (es, r) < 2 + wts k \<or> (cw (es, r) = 0)"
proof (induction nx k arbitrary: es r rule: run_body.induct)
  case (1 nx)
  then show ?case by auto
next
  case (2 nx n k)
  obtain es' r' where e: "run_body nx k = (es', r')" by (cases "run_body nx k")
  with 2 have "r = r'" by simp
  with 2(1) [OF e] show ?case by (cases r') (auto simp: wts_def)
next
  case (3 nx c k)
  then show ?case by (cases r) (fastforce simp: wts_def)+
next
  case (4 nx b c k)
  then show ?case by (cases r) (fastforce simp: wts_def)+
next
  case (5 nx v k)
  show ?case
  proof (cases "unwind k")
    case None
    with 5 show ?thesis by auto
  next
    case (Some k')
    with 5 unwind_wts [OF Some] show ?thesis by (cases r) (fastforce simp: wts_def)+
  qed
next
  case (6 nx v k)
  show ?case
  proof (cases "unwind k")
    case None
    with 6 show ?thesis by (cases r) (fastforce simp: wts_def split: if_splits)+
  next
    case (Some k')
    with 6 unwind_wts [OF Some] show ?thesis
      by (cases r) (fastforce simp: wts_def split: if_splits)+
  qed
next
  case (7 nx v k)
  show ?case
  proof (cases "unwind k")
    case None
    with 7 show ?thesis by (cases r) (auto simp: wts_def split: if_splits)
  next
    case (Some k')
    with 7 unwind_wts [OF Some] show ?thesis
      by (cases r) (fastforce simp: wts_def split: if_splits)+
  qed
next
  case (8 nx k)
  then show ?case by (auto simp: wts_def)
qed

lemma cw_bound: "cw (run_body nx k) \<le> 1 + wts k"
proof -
  obtain es r where e: "run_body nx k = (es, r)" by (cases "run_body nx k")
  from run_body_wts [OF e] e show ?thesis by auto
qed

lemma cw_resume: "cw (run_body nx (resume_body st k)) \<le> 1 + wts k"
proof (cases "\<exists>v. st = Rejected v")
  case False
  then have "resume_body st k = k" by (cases st) auto
  with cw_bound [of nx k] show ?thesis by simp
next
  case True
  then obtain v where st: "st = Rejected v" by blast
  show ?thesis
  proof (cases "unwind k")
    case None
    with st show ?thesis by simp
  next
    case (Some k')
    with cw_bound [of nx k'] unwind_wts [OF Some] st show ?thesis by simp
  qed
qed

section \<open>The run comes to an end\<close>

lemma set_pids: "p \<in> set (pids N) \<longleftrightarrow> inp N p"
  by (cases p) (auto simp: pids_def)

lemma distinct_pids: "distinct (pids N)"
proof -
  have "distinct (concat (map (\<lambda>e. [Internal e, Teardown e, Result e, RouteResult e]) [0..<N]))"
    by (rule distinct_concat) (auto simp: distinct_map inj_on_def)
  then show ?thesis by (auto simp: pids_def)
qed

lemma sum_list_upd_out:
  "p \<notin> set ps \<Longrightarrow> sum_list (map (\<lambda>q. if q = p then x else f q) ps) = sum_list (map f ps)"
  by (induction ps) auto

lemma sum_list_upd:
  "distinct ps \<Longrightarrow> p \<in> set ps \<Longrightarrow>
   sum_list (map (\<lambda>q. if q = p then x else f q) ps) + f p = sum_list (map f ps) + (x::nat)"
proof (induction ps)
  case Nil
  then show ?case by simp
next
  case (Cons a ps)
  show ?case
  proof (cases "a = p")
    case True
    with Cons.prems have "p \<notin> set ps" by simp
    from sum_list_upd_out [OF this, of x f] True show ?thesis by simp
  next
    case False
    with Cons show ?thesis by simp
  qed
qed

lemma rw_same: "proms s' = proms s \<Longrightarrow> rw s' = rw s"
  by (simp add: rw_def fun_eq_iff)

lemma rw_queue [simp]: "rw (s\<lparr>queue := q\<rparr>) = rw s"
  by (simp add: rw_def fun_eq_iff)

lemma rw_enqueue [simp]: "rw (enqueue j s) = rw s"
  by (simp add: rw_def fun_eq_iff enqueue_def)

lemma pot_mono: "pot ms h s B \<Longrightarrow> B \<le> B' \<Longrightarrow> pot ms h s B'"
  by (simp add: pot_def)

lemma pot_same:
  assumes "pot ms h s B" and q: "queue s' = queue s" and p: "proms s' = proms s"
  shows "pot ms h s' B"
proof -
  from p have "rw s' = rw s" by (rule rw_same)
  with assms show ?thesis by (simp add: pot_def mu_def)
qed

lemma pot_prims:
  "pot ms h s B \<Longrightarrow> pot ms h (emit es s) B"
  "pot ms h s B \<Longrightarrow> pot ms h (set_result e x s) B"
  "pot ms h s B \<Longrightarrow> pot ms h (set_failed e s) B"
  "pot ms h s B \<Longrightarrow> pot ms h (s\<lparr>execs := xs\<rparr>) B"
  by (erule pot_same; simp add: prim_defs)+

lemma pot_enqueue: "pot ms h s B \<Longrightarrow> pot ms h (enqueue j s) (B + wj ms h j)"
  by (simp add: pot_def mu_def) (simp add: enqueue_def)

lemma pot_settle:
  assumes "pot ms h s B"
  shows "pot ms h (settle p st s) B"
proof (cases "pst (proms s p) = Pending")
  case False
  with assms show ?thesis by (simp add: settle_def)
next
  case True
  let ?N = "Suc (length ms)"
  let ?s' = "settle p st s"
  from assms have b: "\<forall>p. \<not> inp ?N p \<longrightarrow> reactions (proms s p) = []" and m: "mu ms h s \<le> B"
    by (simp_all add: pot_def)
  have s': "?s' = s\<lparr> proms := (proms s)(p := \<lparr> pst = st, reactions = [] \<rparr>),
              queue := queue s @ map (\<lambda>r. React r st) (reactions (proms s p)),
              log := log s @ [Settle p st] \<rparr>"
    using True by (simp add: settle_def)
  have q: "sum_list (map (wj ms h) (queue ?s')) = sum_list (map (wj ms h) (queue s)) + rw s p"
    by (simp add: s' rw_def comp_def)
  have r: "rw ?s' = (\<lambda>q. if q = p then 0 else rw s q)"
    by (auto simp: s' rw_def fun_eq_iff)
  have "mu ms h ?s' = mu ms h s"
  proof (cases "inp ?N p")
    case True
    then have "p \<in> set (pids ?N)" by (simp add: set_pids)
    from sum_list_upd [OF distinct_pids this, of 0 "rw s"] q r show ?thesis
      by (simp add: mu_def)
  next
    case False
    with b have "rw s p = 0" by (simp add: rw_def)
    moreover from False have "p \<notin> set (pids ?N)" by (simp add: set_pids)
    ultimately show ?thesis using q r by (simp add: mu_def sum_list_upd_out)
  qed
  moreover have "\<forall>p'. \<not> inp ?N p' \<longrightarrow> reactions (proms ?s' p') = []"
    using b by (simp add: s')
  ultimately show ?thesis using m by (simp add: pot_def)
qed

lemma pot_subscribe:
  assumes "pot ms h s B" and i: "inp (Suc (length ms)) p"
  shows "pot ms h (subscribe p r s) (B + wr r)"
proof (cases "pst (proms s p) = Pending")
  case False
  with pot_enqueue [OF assms(1), of "React r (pst (proms s p))"] show ?thesis
    by (simp add: subscribe_def)
next
  case True
  let ?N = "Suc (length ms)"
  let ?s' = "subscribe p r s"
  from assms have b: "\<forall>p. \<not> inp ?N p \<longrightarrow> reactions (proms s p) = []" and m: "mu ms h s \<le> B"
    by (simp_all add: pot_def)
  have s': "?s' = s\<lparr> proms := (proms s)(p := (proms s p)\<lparr> reactions := reactions (proms s p) @ [r] \<rparr>) \<rparr>"
    using True by (simp add: subscribe_def)
  have r: "rw ?s' = (\<lambda>q. if q = p then rw s p + wr r else rw s q)"
    by (auto simp: s' rw_def fun_eq_iff)
  from i have "p \<in> set (pids ?N)" by (simp add: set_pids)
  from sum_list_upd [OF distinct_pids this, of "rw s p + wr r" "rw s"] r
  have "mu ms h ?s' = mu ms h s + wr r" by (simp add: mu_def s')
  moreover have "\<forall>p'. \<not> inp ?N p' \<longrightarrow> reactions (proms ?s' p') = []"
    using b i by (auto simp: s')
  ultimately show ?thesis using m by (simp add: pot_def)
qed

lemma pot_suspend:
  assumes p: "pot ms h s B" and o: "owner q < Suc (length ms)"
  shows "pot ms h (suspend q r s) (B + cw r)"
proof -
  obtain es x where r: "r = (es, x)" by (cases r)
  from o have i: "inp (Suc (length ms)) (Teardown (owner q))" by simp
  note e = pot_prims(1) [OF p, of es]
  show ?thesis
  proof (cases x)
    case Done
    with r pot_settle [OF e] show ?thesis by simp
  next
    case (Threw v)
    with r pot_settle [OF e] show ?thesis by simp
  next
    case (AwaitingNext k)
    with r pot_subscribe [OF e i, of "Continue q FromNext k"] show ?thesis by simp
  next
    case (AwaitingTick k)
    with r pot_enqueue [OF e, of "React (Continue q FromTick k) Fulfilled"] show ?thesis by simp
  qed
qed

lemma pot_finish: "pot ms h s B \<Longrightarrow> pot ms h (finish e v s) B"
  by (simp add: finish_def succeed_def fail_def pot_settle)

lemma pot_run:
  assumes p: "pot ms h s B" and e: "e < Suc (length ms)"
    and m: "currentFn (execs s e) = Some m"
  shows "pot ms h (run e s) (B + 4 + wts (fn_body m) + wrem (drop (Suc e) ms) h)"
proof (cases m)
  case (Sync b)
  obtain es r where c: "call_sync True b = (es, r)" by (cases "call_sync True b")
  note em = pot_prims(1) [OF p, of "MwCall e # es"]
  show ?thesis
  proof (cases r)
    case None
    have "B + wj ms h (Microtask e) \<le> B + 4 + wts (fn_body m) + wrem (drop (Suc e) ms) h" by simp
    from pot_mono [OF pot_enqueue [OF em, of "Microtask e"] this] m Sync c None show ?thesis
      by (simp add: run_def)
  next
    case (Some err)
    have "B \<le> B + 4 + wts (fn_body m) + wrem (drop (Suc e) ms) h" by simp
    from pot_mono [OF pot_settle [OF em, of "Internal e" "Rejected err"] this] m Sync c Some
    show ?thesis by (simp add: run_def fail_def)
  qed
next
  case (Async b)
  let ?r = "run_body True b"
  from e have o: "owner (Result e) < Suc (length ms)" by simp
  from e have i: "inp (Suc (length ms)) (Result e)" by simp
  note 1 = pot_suspend [OF pot_prims(1) [OF p, of "[MwCall e]"] o, of ?r]
  note 2 = pot_subscribe [OF pot_prims(2) [OF 1, of e "Some (Result e)"] i, of "OnResult e"]
  note 3 = pot_enqueue [OF 2, of "Microtask e"]
  from cw_bound [of True b] have "B + cw ?r + wr (OnResult e) + wj ms h (Microtask e) \<le>
      B + 4 + wts (fn_body m) + wrem (drop (Suc e) ms) h"
    using Async by simp
  from pot_mono [OF 3 this] m Async show ?thesis by (simp add: run_def)
qed

lemma pot_runRemaining:
  assumes p: "pot ms h s B" and e: "e < length ms"
    and r: "remaining (execs s e) = drop (Suc e) ms" and a: "apiRouteFn (execs s e) = h"
  shows "pot ms h (runRemaining e s) (B + wrem (drop (Suc e) ms) h)"
proof (cases "Suc e < length ms")
  case True
  then have d: "drop (Suc e) ms = ms ! Suc e # drop (Suc (Suc e)) ms"
    by (simp add: Cons_nth_drop_Suc)
  let ?s1 = "s\<lparr>execs := (execs s)(Suc e := new_Executor (remaining (execs s e)) (apiRouteFn (execs s e)))\<rparr>"
  from r d have cf: "currentFn (execs ?s1 (Suc e)) = Some (ms ! Suc e)"
    by (simp add: new_Executor_def)
  from True have lt: "Suc e < Suc (length ms)" by simp
  note 1 = pot_run [OF pot_prims(4) [OF p] lt cf]
  from True have i: "inp (Suc (length ms)) (Internal (Suc e))" by simp
  note 2 = pot_subscribe [OF 1 i, of "OnRemaining e"]
  have "B + 4 + wts (fn_body (ms ! Suc e)) + wrem (drop (Suc (Suc e)) ms) h + wr (OnRemaining e)
      \<le> B + wrem (drop (Suc e) ms) h"
    by (simp add: d)
  from pot_mono [OF 2 this] r d show ?thesis by (simp add: runRemaining_def)
next
  case False
  with e r have r0: "remaining (execs s e) = []" "drop (Suc e) ms = []" by auto
  show ?thesis
  proof (cases h)
    case (Sync hb)
    obtain es r' where c: "call_sync False hb = (es, r')" by (cases "call_sync False hb")
    note em = pot_prims(1) [OF p, of "RouteCall e # es"]
    show ?thesis
    proof (cases r')
      case None
      have "B + wj ms h (React (OnRemaining e) Fulfilled) \<le> B + wrem (drop (Suc e) ms) h"
        using r0 by simp
      from pot_mono [OF pot_enqueue [OF em, of "React (OnRemaining e) Fulfilled"] this]
        r0 a Sync c None show ?thesis by (simp add: runRemaining_def)
    next
      case (Some err)
      have "B \<le> B + wrem (drop (Suc e) ms) h" by simp
      from pot_mono [OF pot_finish [OF em, of e err] this] r0 a Sync c Some show ?thesis
        by (simp add: runRemaining_def)
    qed
  next
    case (Async hb)
    let ?r = "run_body False hb"
    from e have o: "owner (RouteResult e) < Suc (length ms)" by simp
    from e have i: "inp (Suc (length ms)) (RouteResult e)" by simp
    note 1 = pot_suspend [OF pot_prims(1) [OF p, of "[RouteCall e]"] o, of ?r]
    note 2 = pot_subscribe [OF 1 i, of "OnRemaining e"]
    from cw_bound [of False hb] have "B + cw ?r + wr (OnRemaining e) \<le> B + wrem (drop (Suc e) ms) h"
      using Async r0 by simp
    from pot_mono [OF 2 this] r0 a Async show ?thesis by (simp add: runRemaining_def)
  qed
qed

lemma pot_exec_job:
  assumes p: "pot ms h s B" and j: "ok_job ms h s c j" and n: "\<not> is_microtask j"
  shows "pot ms h (exec_job j s) (B + wj ms h j - 1)"
proof -
  obtain r st where jr: "j = React r st" using n by (cases j) auto
  have w: "1 \<le> wr r" by (cases r) auto
  show ?thesis
  proof (cases r)
    case (Continue q src k)
    with jr j have "ok_coroutine ms h c q" by simp
    then have o: "owner q < Suc (length ms)" by (cases q) auto
    note 1 = pot_suspend [OF pot_prims(1) [OF p, of "[Resume q src st]"] o,
        of "run_body (has_next q) (resume_body st k)"]
    from cw_resume [of "has_next q" st k]
    have "B + cw (run_body (has_next q) (resume_body st k)) \<le> B + wj ms h j - 1"
      using jr Continue by simp
    from pot_mono [OF 1 this] jr Continue show ?thesis by (simp add: exec_continue)
  next
    case (OnResult e)
    with jr pot_settle [OF pot_prims(3) [OF p]] pot_settle [OF p] show ?thesis
      by (cases st) (simp_all add: succeed_def fail_def)
  next
    case (OnRemaining e)
    with jr pot_finish [OF p] show ?thesis by (cases st) simp_all
  next
    case OnFinal
    with jr pot_settle [OF p] show ?thesis by (cases st) simp_all
  qed
qed

lemma pot_pop:
  assumes "pot ms h s B" "queue s = j # q"
  shows "wj ms h j \<le> B \<and> pot ms h (s\<lparr>queue := q\<rparr>) (B - wj ms h j)"
  using assms by (auto simp: pot_def mu_def)

lemma wj_pos: "1 \<le> wj ms h j"
  by (cases j; cases "case j of React r st \<Rightarrow> r") auto

lemma pot_step:
  assumes i: "inv ms h s c" and p: "pot ms h s B" and ne: "queue s \<noteq> []"
  shows "1 \<le> B \<and> pot ms h (step s) (B - 1)"
  using i
proof (cases rule: step_cases)
  case idle
  with ne show ?thesis by simp
next
  case (job j q)
  from pot_pop [OF p job(1)] have w: "wj ms h j \<le> B" and p1: "pot ms h (s\<lparr>queue := q\<rparr>) (B - wj ms h j)"
    by simp_all
  from pot_exec_job [OF p1 job(3,2)] w wj_pos [of ms h j] job(4) show ?thesis by simp
next
  case (skip q)
  from pot_pop [OF p skip(1)] have w: "wj ms h (Microtask (c - 1)) \<le> B"
    and p1: "pot ms h (s\<lparr>queue := q\<rparr>) (B - wj ms h (Microtask (c - 1)))" by simp_all
  from w have "1 \<le> B" by simp
  moreover from p1 have "pot ms h (s\<lparr>queue := q\<rparr>) (B - 1)" by (rule pot_mono) simp
  ultimately show ?thesis using skip by simp
next
  case (advance e q)
  from pot_pop [OF p advance(1)] have w: "wj ms h (Microtask e) \<le> B"
    and p1: "pot ms h (s\<lparr>queue := q\<rparr>) (B - wj ms h (Microtask e))" by simp_all
  have "pot ms h (runRemaining e (s\<lparr>queue := q\<rparr>)) (B - wj ms h (Microtask e) + wrem (drop (Suc e) ms) h)"
    by (rule pot_runRemaining [OF p1 advance(3)]) (use advance in simp_all)
  with w advance(6) show ?thesis by simp
qed

lemma pot_init:
  assumes "ms \<noteq> []"
  shows "pot ms h (finalRouteHandler ms h) (wrem ms h)"
proof -
  obtain m r where ms: "ms = m # r" using assms by (cases ms) auto
  let ?s0 = "init\<lparr>execs := (execs init)(0 := new_Executor ms h)\<rparr>"
  have "rw ?s0 = (\<lambda>p. 0)" by (simp add: rw_def fun_eq_iff)
  then have p0: "pot ms h ?s0 0" by (simp add: pot_def mu_def)
  have cf: "currentFn (execs ?s0 0) = Some m" by (simp add: ms new_Executor_def)
  note 1 = pot_run [OF p0 _ cf]
  have "pot ms h (subscribe (Internal 0) OnFinal (run 0 ?s0))
      (0 + 4 + wts (fn_body m) + wrem (drop (Suc 0) ms) h + wr OnFinal)"
    by (rule pot_subscribe [OF 1]) simp_all
  then show ?thesis by (simp add: finalRouteHandler_def ms add.assoc)
qed

text \<open>The microtask loop of a run comes to an end: after \<open>wrem ms h\<close> microtasks at most
  the queue is empty, and stays so.\<close>

lemma drain_quiesces:
  "inv ms h s c \<Longrightarrow> pot ms h s B \<Longrightarrow> queue (drain B s) = []"
proof (induction B arbitrary: s c)
  case 0
  show ?case
  proof (cases "queue s")
    case Nil
    then show ?thesis by simp
  next
    case (Cons j q)
    with pot_step [OF 0] show ?thesis by simp
  qed
next
  case (Suc B)
  show ?case
  proof (cases "queue s")
    case Nil
    then show ?thesis by (simp add: drain_idle del: drain.simps)
  next
    case (Cons j q)
    with pot_step [OF Suc.prems] have "pot ms h (step s) B" by simp
    from Suc.IH [OF inv_step [OF Suc.prems(1)] this] show ?thesis by simp
  qed
qed

lemma run_quiesces:
  assumes ne: "ms \<noteq> []" and n: "wrem ms h \<le> n"
  shows "queue (makeMiddlewareExecutor ms h n) = []"
    and "makeMiddlewareExecutor ms h n = makeMiddlewareExecutor ms h (wrem ms h)"
proof -
  let ?s0 = "finalRouteHandler ms h"
  from drain_quiesces [OF inv_init [OF ne] pot_init [OF ne]]
  have q: "queue (drain (wrem ms h) ?s0) = []" .
  from n have "n = wrem ms h + (n - wrem ms h)" by simp
  then have "drain n ?s0 = drain (n - wrem ms h) (drain (wrem ms h) ?s0)"
    by (metis drain_add)
  also have "\<dots> = drain (wrem ms h) ?s0" by (rule drain_idle [OF q])
  finally show "makeMiddlewareExecutor ms h n = makeMiddlewareExecutor ms h (wrem ms h)"
    by (simp add: makeMiddlewareExecutor_def)
  with q show "queue (makeMiddlewareExecutor ms h n) = []"
    by (simp add: makeMiddlewareExecutor_def)
qed

section \<open>Nothing is left pending\<close>

lemma inv_full_init: "ms \<noteq> [] \<Longrightarrow> inv_full ms h (finalRouteHandler ms h) 1"
  unfolding inv_full_def
  using inv_run_init [of ms h] rem_wired_init [of ms h] kont_init [of ms h] by blast

lemma inv_full_step:
  assumes "inv_full ms h s c"
  shows "inv_full ms h (step s) (if advances s c then Suc c else c)"
proof -
  from assms have r: "inv_run ms h s c" and w: "rem_wired ms h s c" and k: "kont ms h s c"
    by (simp_all add: inv_full_def)
  from r have a: "inv_all ms h s c" and f: "fresh ms s c"
    by (simp_all add: inv_run_def inv_gate_def)
  from a have i: "inv ms h s c" by (simp add: inv_all_def)
  from inv_run_step [OF r] rem_wired_step [OF a w] kont_step [OF i f k] show ?thesis
    unfolding inv_full_def by blast
qed

lemma inv_full_drain: "inv_full ms h s c \<Longrightarrow> \<exists>c'. c \<le> c' \<and> inv_full ms h (drain n s) c'"
proof (induction n arbitrary: s c)
  case 0
  then show ?case by auto
next
  case (Suc n)
  let ?c = "if advances s c then Suc c else c"
  from Suc.IH [OF inv_full_step [OF Suc.prems]] obtain c'
    where "?c \<le> c'" "inv_full ms h (drain n (step s)) c'" by blast
  then show ?case by (auto split: if_splits intro: exI [of _ c'])
qed

lemma inv_full_reachable: "ms \<noteq> [] \<Longrightarrow> \<exists>c. inv_full ms h (makeMiddlewareExecutor ms h n) c"
  unfolding makeMiddlewareExecutor_def using inv_full_drain [OF inv_full_init] by blast

lemma inv_full_parts:
  assumes "inv_full ms h s c"
  shows "inv_calls ms h s c" "typed ms h s c" "sound s" "results_ok ms s c" "frame_ok ms s"
    "wired ms s c" "fresh ms s c" "gate ms s c" "blocked ms s c" "passed ms c"
    "stall_val ms s c" "rem_wired ms h s c" "kont ms h s c"
  using assms
  by (simp_all add: inv_full_def inv_run_def inv_gate_def inv_all_def inv_def)

text \<open>When the queue is empty, nothing that was started is left pending.\<close>

lemma wire_quiet: "wire s p r d \<Longrightarrow> queue s = [] \<Longrightarrow> pst (proms s p) \<noteq> Pending \<Longrightarrow> d"
  by (auto simp: wire_def)

lemma co_settled:
  assumes i: "inv_full ms h s c" and q: "queue s = []"
    and ok: "ok_coroutine ms h c p"
    and t: "has_next p \<Longrightarrow> pst (proms s (Teardown (owner p))) \<noteq> Pending"
  shows "pst (proms s p) \<noteq> Pending"
proof
  assume pe: "pst (proms s p) = Pending"
  note k = inv_full_parts(13) [OF i] and ty = inv_full_parts(2) [OF i] and so = inv_full_parts(3) [OF i]
  from k ok pe have "conts s p = 1" by (simp add: kont_def)
  with q have "filter (is_contr p) (reactions (proms s (Teardown (owner p)))) \<noteq> []"
    by (auto simp: conts_def)
  then obtain r where r: "r \<in> set (reactions (proms s (Teardown (owner p))))" "is_contr p r"
    by (metis filter_empty_conv)
  from r(2) obtain src k' where rk: "r = Continue p src k'" by (cases r) auto
  from ty r(1) have "ok_reaction ms h c (Teardown (owner p)) r" by (simp add: typed_def)
  with rk have hn: "has_next p" by simp
  from t [OF hn] so have "reactions (proms s (Teardown (owner p))) = []" by (simp add: sound_def)
  with r(1) show False by simp
qed

lemma frame_settled:
  assumes i: "inv_full ms h s c" and q: "queue s = []"
    and e: "e < c" "e < length ms" and f: "finished ms s e"
  shows "pst (proms s (Internal e)) \<noteq> Pending"
proof (cases "is_async (ms ! e)")
  case False
  with f show ?thesis by (simp add: finished_def fin_promise_def)
next
  case True
  with f have t: "pst (proms s (Teardown e)) \<noteq> Pending" by (simp add: finished_def fin_promise_def)
  from e True have "ok_coroutine ms h c (Result e)" by simp
  from co_settled [OF i q this] t have r: "pst (proms s (Result e)) \<noteq> Pending" by simp
  from inv_full_parts(6) [OF i] e True
  have "wire s (Result e) (OnResult e) (pst (proms s (Internal e)) = pst (proms s (Result e)))"
    by (simp add: wired_def)
  from wire_quiet [OF this q r] r show ?thesis by simp
qed

lemma rem_finished:
  assumes i: "inv_full ms h s c" and q: "queue s = []"
    and e: "Suc e < c" "e < length ms"
    and r: "Suc e < length ms \<Longrightarrow> pst (proms s (Internal (Suc e))) \<noteq> Pending"
  shows "finished ms s e"
proof -
  from inv_full_parts(12) [OF i] e have w: "rem_wire ms h s e" by (simp add: rem_wired_def)
  show ?thesis
  proof (cases "Suc e < length ms")
    case True
    with w have "wire s (Internal (Suc e)) (OnRemaining e) (finished ms s e)"
      by (simp add: rem_wire_def rem_promise_def)
    from wire_quiet [OF this q r [OF True]] show ?thesis .
  next
    case False
    show ?thesis
    proof (cases "is_async h")
      case a: True
      with w False have w': "wire s (RouteResult e) (OnRemaining e) (finished ms s e)"
        by (simp add: rem_wire_def rem_promise_def)
      from inv_full_parts(1) [OF i] have "c \<le> Suc (length ms)" by (simp add: inv_calls_def)
      with e False a have "ok_coroutine ms h c (RouteResult e)" by auto
      from co_settled [OF i q this] have "pst (proms s (RouteResult e)) \<noteq> Pending" by simp
      from wire_quiet [OF w' q this] show ?thesis .
    next
      case a: False
      with w False q show ?thesis by (simp add: rem_wire_def)
    qed
  qed
qed

lemma top_settled:
  assumes i: "inv_full ms h s c" and q: "queue s = []" and c: "c \<le> length ms"
  shows "pst (proms s (Internal (c - 1))) \<noteq> Pending"
proof -
  from inv_full_parts(1) [OF i] have c0: "0 < c" by (simp add: inv_calls_def)
  from inv_full_parts(8) [OF i] q c have "\<not> starts (ms ! (c - 1))" by (auto simp: gate_def)
  then obtain v where v: "thrown (ms ! (c - 1)) = Some v" by (auto simp: starts_thrown)
  with inv_full_parts(11) [OF i] c c0 have o: "pst (proms s (own ms (c - 1))) = Rejected v"
    by (simp add: stall_val_def)
  show ?thesis
  proof (cases "is_async (ms ! (c - 1))")
    case False
    with o show ?thesis by (simp add: own_def)
  next
    case True
    with o have r: "pst (proms s (Result (c - 1))) \<noteq> Pending" by (simp add: own_def)
    from inv_full_parts(6) [OF i] c c0 True
    have "wire s (Result (c - 1)) (OnResult (c - 1))
        (pst (proms s (Internal (c - 1))) = pst (proms s (Result (c - 1))))"
      by (simp add: wired_def)
    from wire_quiet [OF this q r] r show ?thesis by simp
  qed
qed

lemma frames_settled:
  assumes i: "inv_full ms h s c" and q: "queue s = []" and ne: "ms \<noteq> []"
  shows "e < c \<Longrightarrow> e < length ms \<Longrightarrow> pst (proms s (Internal e)) \<noteq> Pending"
proof (induction "length ms - e" arbitrary: e)
  case 0
  then show ?case by simp
next
  case (Suc d)
  show ?case
  proof (cases "Suc e < c")
    case False
    with Suc.prems have ec: "e = c - 1" "c \<le> length ms" by auto
    from top_settled [OF i q ec(2)] ec show ?thesis by simp
  next
    case True
    have "pst (proms s (Internal (Suc e))) \<noteq> Pending" if "Suc e < length ms"
      by (rule Suc.hyps(1)) (use Suc.hyps(2) True that in auto)
    from rem_finished [OF i q True Suc.prems(2) this]
    have "finished ms s e" .
    from frame_settled [OF i q Suc.prems this] show ?thesis .
  qed
qed

lemma quiet_outcome:
  assumes i: "inv_full ms h s c" and q: "queue s = []" and ne: "ms \<noteq> []"
  shows "outcome s \<noteq> Pending" "outcome s = pst (proms s (Internal 0))"
proof -
  from inv_full_parts(1) [OF i] have "0 < c" by (simp add: inv_calls_def)
  with frames_settled [OF i q ne, of 0] ne have r: "pst (proms s (Internal 0)) \<noteq> Pending" by simp
  from inv_full_parts(6) [OF i]
  have "wire s (Internal 0) OnFinal (pst (proms s Final) = pst (proms s (Internal 0)))"
    by (simp add: wired_def)
  from wire_quiet [OF this q r] r
  show "outcome s \<noteq> Pending" "outcome s = pst (proms s (Internal 0))"
    by (simp_all add: outcome_def)
qed

text \<open>Every run ends, with the promise of the chain settled.\<close>

lemma run_settles:
  assumes n: "wrem ms h \<le> n"
  shows "queue (makeMiddlewareExecutor ms h n) = [] \<and> outcome (makeMiddlewareExecutor ms h n) \<noteq> Pending"
proof (cases "ms = []")
  case True
  have "0 < wrem ms h" by (cases ms) simp_all
  with n obtain k where "n = Suc k" by (cases n) auto
  with True show ?thesis
    by (simp add: makeMiddlewareExecutor_def empty_list_run outcome_def del: drain.simps)
next
  case False
  from inv_full_reachable [OF False] obtain c where i: "inv_full ms h (makeMiddlewareExecutor ms h n) c"
    by blast
  from run_quiesces(1) [OF False n] quiet_outcome(1) [OF i _ False] show ?thesis by simp
qed

section \<open>One settling event per promise\<close>

lemma once_same: "once s \<Longrightarrow> log s' = log s \<Longrightarrow> proms s' = proms s \<Longrightarrow> once s'"
  by (simp add: once_def)

lemma once_prims:
  "once s \<Longrightarrow> once (enqueue j s)"
  "once s \<Longrightarrow> once (set_result e x s)"
  "once s \<Longrightarrow> once (set_failed e s)"
  "once s \<Longrightarrow> once (s\<lparr>execs := xs\<rparr>)"
  "once s \<Longrightarrow> once (s\<lparr>queue := q\<rparr>)"
  by (erule once_same; simp add: prim_defs)+

lemma once_subscribe: "once s \<Longrightarrow> once (subscribe p r s)"
  by (auto simp: once_def subscribe_def enqueue_def)

lemma once_emit: "once s \<Longrightarrow> \<forall>x\<in>set es. \<forall>p. \<not> is_settle p x \<Longrightarrow> once (emit es s)"
  by (auto simp: once_def emit_def filter_empty_conv)

lemma once_settle: "once s \<Longrightarrow> st \<noteq> Pending \<Longrightarrow> once (settle p st s)"
  by (auto simp: once_def settle_def)

lemma eff_not_settle: "is_eff x \<Longrightarrow> \<not> is_settle p x"
  by (cases x) auto

lemma once_suspend:
  assumes "once s"
  shows "once (suspend q (run_body nx k) s)"
proof -
  obtain es r where rb: "run_body nx k = (es, r)" by (cases "run_body nx k")
  from run_body_effs [OF rb] have "\<forall>x\<in>set es. \<forall>p. \<not> is_settle p x"
    by (auto dest: eff_not_settle)
  from once_emit [OF assms this] rb show ?thesis
    by (cases r) (simp_all add: once_settle once_subscribe once_prims)
qed

lemma once_finish: "once s \<Longrightarrow> once (finish e v s)"
  by (simp add: finish_def succeed_def fail_def once_settle)

lemma once_run:
  assumes "once s"
  shows "once (run e s)"
proof (cases "currentFn (execs s e)")
  case None
  with assms show ?thesis by (simp add: run_def fail_def once_settle)
next
  case (Some f)
  show ?thesis
  proof (cases f)
    case (Sync b)
    obtain es r where c: "call_sync True b = (es, r)" by (cases "call_sync True b")
    from call_sync_effs [OF c] have "\<forall>x\<in>set (MwCall e # es). \<forall>p. \<not> is_settle p x"
      by (auto dest: eff_not_settle)
    from once_emit [OF assms this] Some Sync c show ?thesis
      by (cases r) (simp_all add: run_def fail_def once_settle once_prims)
  next
    case (Async b)
    have "once (emit [MwCall e] s)" by (rule once_emit [OF assms]) simp
    from once_suspend [OF this] Some Async show ?thesis
      by (simp add: run_def once_prims once_subscribe)
  qed
qed

lemma once_runRemaining:
  assumes "once s"
  shows "once (runRemaining e s)"
proof (cases "remaining (execs s e) = []")
  case False
  with once_run [OF once_prims(4) [OF assms]] show ?thesis
    by (simp add: runRemaining_def once_subscribe)
next
  case True
  show ?thesis
  proof (cases "apiRouteFn (execs s e)")
    case (Sync b)
    obtain es r where c: "call_sync False b = (es, r)" by (cases "call_sync False b")
    from call_sync_effs [OF c] have "\<forall>x\<in>set (RouteCall e # es). \<forall>p. \<not> is_settle p x"
      by (auto dest: eff_not_settle)
    from once_emit [OF assms this] True Sync c show ?thesis
      by (cases r) (simp_all add: runRemaining_def once_finish once_prims)
  next
    case (Async b)
    have "once (emit [RouteCall e] s)" by (rule once_emit [OF assms]) simp
    from once_suspend [OF this] True Async show ?thesis
      by (simp add: runRemaining_def once_subscribe)
  qed
qed

lemma once_exec_job:
  assumes "once s"
  shows "once (exec_job j s)"
proof (cases j)
  case (Microtask e)
  with assms show ?thesis by (simp add: once_runRemaining)
next
  case (React r st)
  show ?thesis
  proof (cases r)
    case (Continue q src k)
    have "once (emit [Resume q src st] s)" by (rule once_emit [OF assms]) simp
    from once_suspend [OF this] React Continue show ?thesis by (simp add: exec_continue)
  qed (use React assms in \<open>auto simp: succeed_def fail_def once_settle once_finish once_prims
        split: pstate.splits\<close>)
qed

lemma once_step: "once s \<Longrightarrow> once (step s)"
  by (cases "queue s") (simp_all add: step_def once_exec_job once_prims)

lemma once_drain: "once s \<Longrightarrow> once (drain n s)"
  by (induction n arbitrary: s) (simp_all add: once_step)

lemma once_reachable: "once (makeMiddlewareExecutor ms h n)"
proof -
  have "once (init\<lparr>execs := (execs init)(0 := new_Executor ms h)\<rparr>)"
    by (simp add: once_def)
  then show ?thesis
    unfolding makeMiddlewareExecutor_def finalRouteHandler_def
    by (intro once_drain once_subscribe once_run)
qed

text \<open>A job never changes a promise that is settled.\<close>

lemma exec_job_keeps:
  "pst (proms s p) \<noteq> Pending \<Longrightarrow> pst (proms (exec_job j s) p) = pst (proms s p)"
  using extends_exec_job [of s j] unfolding extends_def by blast

lemma empty_list_no_call: "MwCall e \<notin> set (log (makeMiddlewareExecutor [] h n))"
proof (cases n)
  case 0
  then show ?thesis
    by (simp add: makeMiddlewareExecutor_def finalRouteHandler_def run_def prim_defs new_Executor_def)
next
  case (Suc k)
  then show ?thesis
    by (simp add: makeMiddlewareExecutor_def empty_list_run del: drain.simps)
qed

lemma called_frames_settle:
  assumes n: "wrem ms h \<le> n" and c: "MwCall e \<in> set (log (makeMiddlewareExecutor ms h n))"
  shows "pst (proms (makeMiddlewareExecutor ms h n) (Internal e)) \<noteq> Pending"
proof (cases "ms = []")
  case True
  with c empty_list_no_call [of e h n] show ?thesis by simp
next
  case False
  from inv_full_reachable [OF False] obtain c' where i: "inv_full ms h (makeMiddlewareExecutor ms h n) c'"
    by blast
  from inv_calls_called [OF inv_full_parts(1) [OF i]] c have "e < c'" "e < length ms" by simp_all
  from frames_settled [OF i run_quiesces(1) [OF False n] False this] show ?thesis .
qed

section \<open>The claims\<close>

subsection \<open>C1: ordering\<close>

text \<open>
  Claim C1. For a list that is not empty, in which every middleware is synchronous and
  returns without throwing (whether or not its body calls the continuation: the executor
  goes on either way): from the moment the last microtask of line 98 has run, which is
  after \<open>length ms\<close> microtasks, the calls made are exactly the middleware, each once,
  then the route handler, once; and the log begins with each call followed by the effects
  of the middleware at that position of the list, in list order, up to the call of the
  route handler. For the empty list the code makes no call at all, whatever the route
  handler and however long it runs: the handler that the claim says is invoked once is
  never invoked.
\<close>

theorem ordering_sync_chain:
  "(ms \<noteq> [] \<and> (\<forall>m\<in>set ms. sync_ok m) \<and> length ms \<le> n \<longrightarrow>
      calls_of (makeMiddlewareExecutor ms h n) =
        map MwCall [0..<length ms] @ [RouteCall (length ms - 1)] \<and>
      (\<exists>rest. log (makeMiddlewareExecutor ms h n) =
         sync_log ms (length ms) @ RouteCall (length ms - 1) # rest)) \<and>
   calls_of (makeMiddlewareExecutor [] h n) = []"
proof (intro conjI impI)
  assume a: "ms \<noteq> [] \<and> (\<forall>m\<in>set ms. sync_ok m) \<and> length ms \<le> n"
  then have ne: "ms \<noteq> []" and ok: "\<forall>m\<in>set ms. sync_ok m" and n: "length ms \<le> n" by simp_all
  from ne have 0: "0 < length ms" by simp
  from ok have "\<forall>i<length ms. sync_ok (ms ! i)" by simp
  from asc_drain [OF 0 le_refl this]
  have asc: "asc ms h (drain (length ms - 1) (finalRouteHandler ms h)) (length ms)" .
  from n 0 have nn: "n = (length ms - 1) + Suc (n - length ms)" by arith
  have "makeMiddlewareExecutor ms h n =
      drain (Suc (n - length ms)) (drain (length ms - 1) (finalRouteHandler ms h))"
    unfolding makeMiddlewareExecutor_def by (subst nn) (rule drain_add)
  with asc_calls_complete [OF asc]
  show "calls_of (makeMiddlewareExecutor ms h n) =
      map MwCall [0..<length ms] @ [RouteCall (length ms - 1)]"
    by (simp add: full_calls_def)
  show "\<exists>rest. log (makeMiddlewareExecutor ms h n) =
      sync_log ms (length ms) @ RouteCall (length ms - 1) # rest"
    by (rule sync_chain_log [OF ne ok n])
next
  show "calls_of (makeMiddlewareExecutor [] h n) = []" by (rule empty_list_calls)
qed

theorem ordering_sync_chain_witness:
  "calls_of (makeMiddlewareExecutor
      [Sync [Effect 1, Next Undefined], Sync [Next Undefined, Effect 2]] (Async [AwaitTick, Effect 9]) 2)
     = [MwCall 0, MwCall 1, RouteCall 1] \<and>
   (\<exists>rest. log (makeMiddlewareExecutor
      [Sync [Effect 1, Next Undefined], Sync [Next Undefined, Effect 2]] (Async [AwaitTick, Effect 9]) 2)
     = [MwCall 0, Eff 1, MwCall 1, Eff 2, RouteCall 1] @ rest)"
  using ordering_sync_chain
    [of "[Sync [Effect 1, Next Undefined], Sync [Next Undefined, Effect 2]]" 2 "Async [AwaitTick, Effect 9]"]
  by (simp add: call_sync_def numeral_2_eq_2 sync_log_def)

subsection \<open>C2: a synchronous throw\<close>

text \<open>
  Claim C2, as the code has it. The middleware at position \<open>k\<close> is synchronous and its
  call throws \<open>v\<close>. Then, whatever the other middleware are, no middleware after
  position \<open>k\<close> and no route handler is ever called. The outcome of the chain is the
  failure \<open>v\<close> when the middleware before \<open>k\<close> are synchronous and return normally and
  \<open>v\<close> is truthy or \<open>k = 0\<close>; it is reached after \<open>2 * k + 1\<close> microtasks.
\<close>

theorem sync_throw_short_circuits:
  assumes k: "k < length ms" and m: "ms ! k = Sync b" and cs: "call_sync True b = (es, Some v)"
  shows "(\<forall>j>k. MwCall j \<notin> set (log (makeMiddlewareExecutor ms h n))) \<and>
         (\<forall>e. RouteCall e \<notin> set (log (makeMiddlewareExecutor ms h n))) \<and>
         ((\<forall>i<k. sync_ok (ms ! i)) \<and> (k = 0 \<or> truthy v) \<and> 2 * k + 1 \<le> n \<longrightarrow>
            outcome (makeMiddlewareExecutor ms h n) = Rejected v)"
proof -
  let ?s = "makeMiddlewareExecutor ms h n"
  from m cs have "\<not> returns_normally (ms ! k)" by simp
  from sync_throw_calls [OF k this, where h = h and n = n] obtain c
    where c: "c \<le> Suc k" and cl: "calls_of ?s = map MwCall [0..<c]" by blast
  have 1: "\<forall>j>k. MwCall j \<notin> set (log ?s)"
    using c by (auto simp: mem_calls_of cl)
  have 2: "\<forall>e. RouteCall e \<notin> set (log ?s)"
    by (auto simp: mem_calls_of cl)
  have 3: "outcome ?s = Rejected v"
    if "\<forall>i<k. sync_ok (ms ! i)" "k = 0 \<or> truthy v" "2 * k + 1 \<le> n"
    using sync_throw_outcome [OF k m cs that] .
  from 1 2 3 show ?thesis by (intro conjI impI) auto
qed

theorem sync_throw_short_circuits_witness:
  "MwCall 2 \<notin> set (log (makeMiddlewareExecutor
       [Sync [Next Undefined], Sync [Effect 1, Throw (ErrorObj ''boom''), Effect 2], Sync [Effect 3]]
       (Sync [Effect 9]) 3)) \<and>
   RouteCall 2 \<notin> set (log (makeMiddlewareExecutor
       [Sync [Next Undefined], Sync [Effect 1, Throw (ErrorObj ''boom''), Effect 2], Sync [Effect 3]]
       (Sync [Effect 9]) 3)) \<and>
   outcome (makeMiddlewareExecutor
       [Sync [Next Undefined], Sync [Effect 1, Throw (ErrorObj ''boom''), Effect 2], Sync [Effect 3]]
       (Sync [Effect 9]) 3) = Rejected (ErrorObj ''boom'')"
  using sync_throw_short_circuits
    [of 1 "[Sync [Next Undefined], Sync [Effect 1, Throw (ErrorObj ''boom''), Effect 2], Sync [Effect 3]]"
        "[Effect 1, Throw (ErrorObj ''boom''), Effect 2]" "[Eff 1]" "ErrorObj ''boom''"
        "Sync [Effect 9]" 3]
  by (simp add: call_sync_def)

text \<open>
  The outcome is not the thrown error when an asynchronous middleware before position
  \<open>k\<close> catches the rejection of its teardown handle: the first middleware below is
  \<^verbatim>\<open>async (req, res, next) => { try { await next() } catch {} }\<close>, the second throws,
  and the chain ends (empty queue) fulfilled.
\<close>

theorem sync_throw_outcome_counterexample:
  "outcome (makeMiddlewareExecutor
       [Async [Try [AwaitNext Undefined] []], Sync [Throw (ErrorObj ''boom'')]] (Sync []) 7) = Fulfilled \<and>
   queue (makeMiddlewareExecutor
       [Async [Try [AwaitNext Undefined] []], Sync [Throw (ErrorObj ''boom'')]] (Sync []) 7) = []"
  by code_simp

subsection \<open>C7: the empty list\<close>

text \<open>
  Claim C7 at the empty list. Line 50 leaves \<^verbatim>\<open>currentFn\<close> undefined, line 71 calls it,
  and the TypeError is caught at line 104: the chain fails, the loop ends after one
  microtask, and the log has no call of the route handler.
\<close>

theorem empty_list_fails:
  "outcome (makeMiddlewareExecutor [] (Sync [Effect 9]) 1) =
     Rejected (TypeErrorObj ''this.currentFn is not a function'') \<and>
   log (makeMiddlewareExecutor [] (Sync [Effect 9]) 1) =
     [Settle (Internal 0) (Rejected (TypeErrorObj ''this.currentFn is not a function'')),
      Settle Final (Rejected (TypeErrorObj ''this.currentFn is not a function''))] \<and>
   queue (makeMiddlewareExecutor [] (Sync [Effect 9]) 1) = []"
  by code_simp

subsection \<open>C4: teardown ordering\<close>

text \<open>
  Claim C4, as the code has it. In the log of every run of a chain that is not empty, for
  every executor \<open>e\<close>: the teardown promise of \<open>e\<close> is settled only after the outcome of
  its remainder is (the outcome promise of the next executor, or for the last executor
  the route handler: its promise if it is asynchronous, its call if it is synchronous),
  and a middleware suspended at \<^verbatim>\<open>await next()\<close> is resumed, and so does its post-work,
  only after its teardown promise is settled.
\<close>

theorem teardown_after_remainder:
  assumes "ms \<noteq> []"
  shows "before (rem_done ms h e) (is_settle (Teardown e)) (log (makeMiddlewareExecutor ms h n)) \<and>
         before (is_settle (Teardown e)) (is_resume_next e) (log (makeMiddlewareExecutor ms h n))"
  using ordered_reachable [OF assms, of h n] by (simp add: ordered_def)

theorem teardown_after_remainder_witness:
  "before (rem_done [Sync [Next Undefined], Async [AwaitNext Undefined, Effect 1]] (Async [Effect 7]) 1)
     (is_settle (Teardown 1))
     (log (makeMiddlewareExecutor
        [Sync [Next Undefined], Async [AwaitNext Undefined, Effect 1]] (Async [Effect 7]) 7)) \<and>
   before (is_settle (Teardown 1)) (is_resume_next 1)
     (log (makeMiddlewareExecutor
        [Sync [Next Undefined], Async [AwaitNext Undefined, Effect 1]] (Async [Effect 7]) 7)) \<and>
   log (makeMiddlewareExecutor
        [Sync [Next Undefined], Async [AwaitNext Undefined, Effect 1]] (Async [Effect 7]) 7) =
     [MwCall 0, MwCall 1, RouteCall 1, Eff 7, Settle (RouteResult 1) Fulfilled,
      Settle (Teardown 1) Fulfilled, Resume (Result 1) FromNext Fulfilled,
      Eff 1, Settle (Result 1) Fulfilled, Settle (Internal 1) Fulfilled,
      Settle (Internal 0) Fulfilled, Settle Final Fulfilled]"
proof -
  have a: "before (rem_done [Sync [Next Undefined], Async [AwaitNext Undefined, Effect 1]] (Async [Effect 7]) 1)
     (is_settle (Teardown 1))
     (log (makeMiddlewareExecutor
        [Sync [Next Undefined], Async [AwaitNext Undefined, Effect 1]] (Async [Effect 7]) 7)) \<and>
   before (is_settle (Teardown 1)) (is_resume_next 1)
     (log (makeMiddlewareExecutor
        [Sync [Next Undefined], Async [AwaitNext Undefined, Effect 1]] (Async [Effect 7]) 7))"
    using teardown_after_remainder
      [of "[Sync [Next Undefined], Async [AwaitNext Undefined, Effect 1]]" "Async [Effect 7]" 1 7]
    by simp
  have b: "log (makeMiddlewareExecutor
        [Sync [Next Undefined], Async [AwaitNext Undefined, Effect 1]] (Async [Effect 7]) 7) =
     [MwCall 0, MwCall 1, RouteCall 1, Eff 7, Settle (RouteResult 1) Fulfilled,
      Settle (Teardown 1) Fulfilled, Resume (Result 1) FromNext Fulfilled,
      Eff 1, Settle (Result 1) Fulfilled, Settle (Internal 1) Fulfilled,
      Settle (Internal 0) Fulfilled, Settle Final Fulfilled]"
    by code_simp
  from a b show ?thesis by (intro conjI) (rule conjunct1, assumption, rule conjunct2, assumption, assumption)
qed

text \<open>
  The remainder of the chain need not have settled by then. Below, the first middleware
  is \<^verbatim>\<open>async (req, res, next) => { await next(); effect1() }\<close>, the second is
  \<^verbatim>\<open>async () => {}\<close> and never awaits the continuation, so the outcome of its executor
  settles before the route handler has run; the post-work \<open>Eff 1\<close> of the first runs
  before the route handler's \<open>Eff 9\<close> and before the handler's promise settles.
\<close>

theorem teardown_before_handler_counterexample:
  "log (makeMiddlewareExecutor
      [Async [AwaitNext Undefined, Effect 1], Async []] (Async [AwaitTick, AwaitTick, Effect 9]) 10) =
     [MwCall 0, MwCall 1, Settle (Result 1) Fulfilled,
      Settle (Internal 1) Fulfilled, RouteCall 1, Settle (Teardown 0) Fulfilled,
      Resume (RouteResult 1) FromTick Fulfilled,
      Resume (Result 0) FromNext Fulfilled, Eff 1, Settle (Result 0) Fulfilled,
      Resume (RouteResult 1) FromTick Fulfilled, Eff 9,
      Settle (RouteResult 1) Fulfilled, Settle (Internal 0) Fulfilled,
      Settle (Teardown 1) Fulfilled, Settle Final Fulfilled] \<and>
   queue (makeMiddlewareExecutor
      [Async [AwaitNext Undefined, Effect 1], Async []] (Async [AwaitTick, AwaitTick, Effect 9]) 10) = []"
  by code_simp

subsection \<open>C6: the one-tick window\<close>




subsection \<open>C9: the continuation called with an error\<close>

text \<open>
  Claim C9, as the code has it. A truthy argument of the continuation is thrown at the call
  site: after statements \<open>pre\<close> that run to their end, the call behaves as a \<^verbatim>\<open>throw\<close>
  statement in its place, and nothing after it in the same block runs. When a middleware at
  any position \<open>e\<close>, synchronous or asynchronous, makes that call in the part of its body
  that runs during its own call (the statements \<open>pre\<close> before it run to their end without
  suspending), outside every \<^verbatim>\<open>try\<close> block: the remainder of \<open>e\<close> never begins; once the
  middleware has been called the outcome of its executor is that error from some microtask
  on; and the chain fails with that error, from microtask \<open>2 * e + 3\<close> on, when the
  middleware before \<open>e\<close> are synchronous and return normally.
\<close>

theorem next_error_raised:
  "(truthy v \<and> run_body True pre = (es, Done) \<longrightarrow>
      run_body True (pre @ Next v # post) = run_body True (pre @ Throw v # post)) \<and>
   (e < length ms \<and> fn_body (ms ! e) = pre @ Next v # post \<and> truthy v \<and>
    run_body True pre = (es, Done) \<and> unwind post = None \<longrightarrow>
      \<not> began e (makeMiddlewareExecutor ms h n) \<and>
      (MwCall e \<in> set (log (makeMiddlewareExecutor ms h n)) \<longrightarrow>
         (\<exists>n0. \<forall>n'\<ge>n0. pst (proms (makeMiddlewareExecutor ms h n') (Internal e)) = Rejected v)) \<and>
      ((\<forall>i<e. sync_ok (ms ! i)) \<and> 2 * e + 3 \<le> n \<longrightarrow>
         outcome (makeMiddlewareExecutor ms h n) = Rejected v))"
proof (intro conjI impI)
  assume a: "truthy v \<and> run_body True pre = (es, Done)"
  then have d: "run_body True pre = (es, Done)" and t: "truthy v" by simp_all
  from run_body_append [OF d, of "Next v # post"] run_body_append [OF d, of "Throw v # post"] t
  show "run_body True (pre @ Next v # post) = run_body True (pre @ Throw v # post)" by simp
next
  assume a: "e < length ms \<and> fn_body (ms ! e) = pre @ Next v # post \<and> truthy v \<and>
    run_body True pre = (es, Done) \<and> unwind post = None"
  then have e: "e < length ms" and t: "truthy v"
    and rb: "run_body True (fn_body (ms ! e)) = (es, Threw v)"
    using next_error_uncaught [of pre es v post] by simp_all
  from e have ne: "ms \<noteq> []" by auto
  from rb have th: "thrown (ms ! e) = Some v" by (cases "ms ! e") (simp_all add: call_sync_def)
  then have "\<not> starts (ms ! e)" by (simp add: starts_thrown)
  with began_starts [OF ne, of e h n]
  show "\<not> began e (makeMiddlewareExecutor ms h n)" by blast
  {
    assume c: "MwCall e \<in> set (log (makeMiddlewareExecutor ms h n))"
    note o = thrown_settles [OF ne e th c]
    show "\<exists>n0. \<forall>n'\<ge>n0. pst (proms (makeMiddlewareExecutor ms h n') (Internal e)) = Rejected v"
    proof (cases "ms ! e")
      case (Sync b)
      with o have i: "pst (proms (drain n (finalRouteHandler ms h)) (Internal e)) = Rejected v"
        by (simp add: own_def makeMiddlewareExecutor_def)
      have "pst (proms (makeMiddlewareExecutor ms h n') (Internal e)) = Rejected v" if "n \<le> n'" for n'
        unfolding makeMiddlewareExecutor_def by (rule pst_stable [OF i _ that]) simp
      then show ?thesis by blast
    next
      case (Async b)
      with o have "pst (proms (makeMiddlewareExecutor ms h n) (Result e)) = Rejected v"
        by (simp add: own_def)
      from frame_finally [OF ne e _ this] Async show ?thesis by simp
    qed
  }
  assume p: "(\<forall>i<e. sync_ok (ms ! i)) \<and> 2 * e + 3 \<le> n"
  show "outcome (makeMiddlewareExecutor ms h n) = Rejected v"
  proof (cases "ms ! e")
    case (Sync b)
    with rb have cs: "call_sync True b = (es, Some v)" by (simp add: call_sync_def)
    from sync_throw_outcome [OF e Sync cs, of n h] p t show ?thesis by simp
  next
    case (Async b)
    with rb have "run_body True b = (es, Threw v)" by simp
    from async_reject_outcome [OF e Async this, of n h] p t show ?thesis by simp
  qed
qed

theorem next_error_raised_witness:
  "run_body True [Effect 1, Next (ErrorObj ''denied''), Effect 2] =
     run_body True [Effect 1, Throw (ErrorObj ''denied''), Effect 2] \<and>
   \<not> began 1 (makeMiddlewareExecutor
       [Sync [Effect 0], Async [Effect 1, Next (ErrorObj ''denied''), Effect 2]] (Sync [Effect 9]) 5) \<and>
   (\<exists>n. pst (proms (makeMiddlewareExecutor
       [Sync [Effect 0], Async [Effect 1, Next (ErrorObj ''denied''), Effect 2]] (Sync [Effect 9]) n)
       (Internal 1)) = Rejected (ErrorObj ''denied'')) \<and>
   outcome (makeMiddlewareExecutor
       [Sync [Effect 0], Async [Effect 1, Next (ErrorObj ''denied''), Effect 2]] (Sync [Effect 9]) 5)
     = Rejected (ErrorObj ''denied'')"
proof -
  let ?ms = "[Sync [Effect 0], Async [Effect 1, Next (ErrorObj ''denied''), Effect 2]]"
  have c: "MwCall 1 \<in> set (log (makeMiddlewareExecutor ?ms (Sync [Effect 9]) 5))"
    by code_simp
  have p: "(\<forall>i<1. sync_ok (?ms ! i)) \<and> 2 * 1 + 3 \<le> (5::nat)"
    by (simp add: call_sync_def)
  from next_error_raised
    [of "ErrorObj ''denied''" "[Effect 1]" "[Eff 1]" "[Effect 2]" 1 ?ms "Sync [Effect 9]" 5] c p
  show ?thesis by auto
qed

text \<open>
  Called after an \<^verbatim>\<open>await\<close>, the continuation's error comes too late to stop the
  remainder. The middleware is \<^verbatim>\<open>async (req, res, next) => { await null; next(boom) }\<close>:
  the route handler is called (and its effect performed) although the chain fails. And the
  chain does not fail when an asynchronous middleware before the calling one catches the
  rejection of its teardown promise: behind
  \<^verbatim>\<open>async (req, res, next) => { try { await next() } catch {} }\<close> the chain ends
  fulfilled.
\<close>

theorem next_error_late_counterexample:
  "log (makeMiddlewareExecutor [Async [AwaitTick, Next (ErrorObj ''boom'')]] (Sync [Effect 9]) 5) =
     [MwCall 0, Resume (Result 0) FromTick Fulfilled, Settle (Result 0) (Rejected (ErrorObj ''boom'')),
      RouteCall 0, Eff 9, Settle (Internal 0) (Rejected (ErrorObj ''boom'')),
      Settle (Teardown 0) Fulfilled, Settle Final (Rejected (ErrorObj ''boom''))] \<and>
   queue (makeMiddlewareExecutor [Async [AwaitTick, Next (ErrorObj ''boom'')]] (Sync [Effect 9]) 5) = [] \<and>
   outcome (makeMiddlewareExecutor
      [Async [Try [AwaitNext Undefined] []], Sync [Next (ErrorObj ''boom'')]] (Sync [Effect 9]) 7) = Fulfilled \<and>
   \<not> began 1 (makeMiddlewareExecutor
      [Async [Try [AwaitNext Undefined] []], Sync [Next (ErrorObj ''boom'')]] (Sync [Effect 9]) 7) \<and>
   queue (makeMiddlewareExecutor
      [Async [Try [AwaitNext Undefined] []], Sync [Next (ErrorObj ''boom'')]] (Sync [Effect 9]) 7) = []"
  by code_simp

subsection \<open>C8: an asynchronous middleware that never calls the continuation\<close>

text \<open>
  Claim C8, as the code has it. For an asynchronous middleware at any position \<open>e\<close> of a
  chain, whether or not its body ever calls the continuation: the outcome of its executor
  is never settled from the side of the remainder, it is pending or it is the state of the
  middleware's own promise; once that promise is settled, the outcome of the executor
  takes the same state and keeps it (success passes through, failure propagates). The
  remainder of the chain is started all the same, by the microtask of line 98: once the
  middleware has been called, it begins after finitely many microtasks if the middleware's
  promise is not already rejected when its call returns, and it never begins if it is.
\<close>

theorem async_frame_without_next:
  assumes "ms \<noteq> []" and "e < length ms" and "ms ! e = Async b"
  shows "(pst (proms (makeMiddlewareExecutor ms h n) (Internal e)) = Pending \<or>
          pst (proms (makeMiddlewareExecutor ms h n) (Internal e)) =
            pst (proms (makeMiddlewareExecutor ms h n) (Result e))) \<and>
         (pst (proms (makeMiddlewareExecutor ms h n) (Result e)) \<noteq> Pending \<longrightarrow>
            (\<exists>n0. \<forall>n'\<ge>n0. pst (proms (makeMiddlewareExecutor ms h n') (Internal e)) =
                              pst (proms (makeMiddlewareExecutor ms h n) (Result e)))) \<and>
         (MwCall e \<in> set (log (makeMiddlewareExecutor ms h n)) \<and> starts (Async b) \<longrightarrow>
            (\<exists>n0. \<forall>n'\<ge>n0. began e (makeMiddlewareExecutor ms h n'))) \<and>
         (began e (makeMiddlewareExecutor ms h n) \<longrightarrow> starts (Async b))"
proof (intro conjI impI)
  from assms have a: "is_async (ms ! e)" by simp
  show "pst (proms (makeMiddlewareExecutor ms h n) (Internal e)) = Pending \<or>
        pst (proms (makeMiddlewareExecutor ms h n) (Internal e)) =
          pst (proms (makeMiddlewareExecutor ms h n) (Result e))"
    by (rule frame_pending_or_result [OF assms(1,2) a])
  show "\<exists>n0. \<forall>n'\<ge>n0. pst (proms (makeMiddlewareExecutor ms h n') (Internal e)) =
                        pst (proms (makeMiddlewareExecutor ms h n) (Result e))"
    if "pst (proms (makeMiddlewareExecutor ms h n) (Result e)) \<noteq> Pending"
    using frame_finally [OF assms(1,2) a refl that] .
  show "\<exists>n0. \<forall>n'\<ge>n0. began e (makeMiddlewareExecutor ms h n')"
    if "MwCall e \<in> set (log (makeMiddlewareExecutor ms h n)) \<and> starts (Async b)"
    using began_finally [OF assms(1,2), of h n] that assms(3) by simp
  show "starts (Async b)" if "began e (makeMiddlewareExecutor ms h n)"
    using began_starts [OF assms(1) that] assms(3) by simp
qed

theorem async_frame_without_next_witness:
  "pst (proms (makeMiddlewareExecutor [Async [Effect 1]] (Sync [Effect 9]) 2) (Internal 0)) = Fulfilled \<and>
   (\<exists>n. pst (proms (makeMiddlewareExecutor [Async [Effect 1]] (Sync [Effect 9]) n) (Internal 0)) = Fulfilled) \<and>
   (\<exists>n. began 0 (makeMiddlewareExecutor [Async [Effect 1]] (Sync [Effect 9]) n)) \<and>
   starts (Async [Effect 1])"
proof -
  have r: "pst (proms (makeMiddlewareExecutor [Async [Effect 1]] (Sync [Effect 9]) 2) (Result 0)) = Fulfilled"
    by code_simp
  have i: "pst (proms (makeMiddlewareExecutor [Async [Effect 1]] (Sync [Effect 9]) 2) (Internal 0)) \<noteq> Pending"
    by code_simp
  have c: "MwCall 0 \<in> set (log (makeMiddlewareExecutor [Async [Effect 1]] (Sync [Effect 9]) 2))"
    by code_simp
  have b: "began 0 (makeMiddlewareExecutor [Async [Effect 1]] (Sync [Effect 9]) 2)"
    by code_simp
  from async_frame_without_next [of "[Async [Effect 1]]" 0 "[Effect 1]" "Sync [Effect 9]" 2] r i c b
  show ?thesis by auto
qed

text \<open>
  The remainder is executed although the continuation is never invoked. The middleware is
  \<^verbatim>\<open>async () => { effect1() }\<close>: the route handler is called and performs its
  effect, after the outcome of the executor has settled.
\<close>

theorem remainder_runs_without_next_counterexample:
  "log (makeMiddlewareExecutor [Async [Effect 1]] (Sync [Effect 9]) 4) =
     [MwCall 0, Eff 1, Settle (Result 0) Fulfilled, Settle (Internal 0) Fulfilled,
      RouteCall 0, Eff 9, Settle Final Fulfilled, Settle (Teardown 0) Fulfilled] \<and>
   queue (makeMiddlewareExecutor [Async [Effect 1]] (Sync [Effect 9]) 4) = []"
  by code_simp

subsection \<open>C10: the outcome of a frame with an asynchronous middleware\<close>




subsection \<open>C3: single settlement\<close>

text \<open>
  Claim C3. For every middleware list, the empty one included, and every route handler:
  the microtask loop of a run comes to an end, after \<open>wrem ms h\<close> microtasks at the
  latest, and by then the promise of the chain is settled, and so is the outcome of every
  executor whose middleware was called; once settled the promise of the chain keeps its
  state for the rest of the run; at every moment the log holds exactly one settling event
  for each promise that is settled (the promise of the chain and the outcome of each
  executor among them) and none for one that is pending; and a settled promise is changed
  neither by another call of its resolve or reject control nor by any job of the queue.
  The middleware and the route handler range over the bodies of the model: finite, and
  awaiting only the continuation's handle or values that are no promises.
\<close>

theorem single_settlement:
  "(wrem ms h \<le> n \<longrightarrow>
      queue (makeMiddlewareExecutor ms h n) = [] \<and>
      outcome (makeMiddlewareExecutor ms h n) \<noteq> Pending \<and>
      (MwCall e \<in> set (log (makeMiddlewareExecutor ms h n)) \<longrightarrow>
         pst (proms (makeMiddlewareExecutor ms h n) (Internal e)) \<noteq> Pending)) \<and>
   (outcome (makeMiddlewareExecutor ms h n) \<noteq> Pending \<and> n \<le> n' \<longrightarrow>
      outcome (makeMiddlewareExecutor ms h n') = outcome (makeMiddlewareExecutor ms h n)) \<and>
   filter (is_settle p) (log (makeMiddlewareExecutor ms h n)) =
     (if pst (proms (makeMiddlewareExecutor ms h n) p) = Pending then []
      else [Settle p (pst (proms (makeMiddlewareExecutor ms h n) p))]) \<and>
   (pst (proms s p) \<noteq> Pending \<longrightarrow>
      settle p st s = s \<and> pst (proms (exec_job j s) p) = pst (proms s p))"
proof (intro conjI impI)
  assume n: "wrem ms h \<le> n"
  from run_settles [OF this]
  show "queue (makeMiddlewareExecutor ms h n) = []" "outcome (makeMiddlewareExecutor ms h n) \<noteq> Pending"
    by simp_all
  show "pst (proms (makeMiddlewareExecutor ms h n) (Internal e)) \<noteq> Pending"
    if "MwCall e \<in> set (log (makeMiddlewareExecutor ms h n))"
    by (rule called_frames_settle [OF n that])
next
  assume a: "outcome (makeMiddlewareExecutor ms h n) \<noteq> Pending \<and> n \<le> n'"
  then have "pst (proms (drain n (finalRouteHandler ms h)) Final) \<noteq> Pending"
    by (simp add: outcome_def makeMiddlewareExecutor_def)
  from pst_stable [OF refl this, of n'] a
  show "outcome (makeMiddlewareExecutor ms h n') = outcome (makeMiddlewareExecutor ms h n)"
    by (simp add: outcome_def makeMiddlewareExecutor_def)
next
  from once_reachable [of ms h n]
  show "filter (is_settle p) (log (makeMiddlewareExecutor ms h n)) =
     (if pst (proms (makeMiddlewareExecutor ms h n) p) = Pending then []
      else [Settle p (pst (proms (makeMiddlewareExecutor ms h n) p))])"
    by (simp add: once_def)
next
  assume p: "pst (proms s p) \<noteq> Pending"
  then show "settle p st s = s" by (simp add: settle_def)
  from p show "pst (proms (exec_job j s) p) = pst (proms s p)" by (rule exec_job_keeps)
qed

theorem single_settlement_witness:
  "outcome (makeMiddlewareExecutor [Sync [Next Undefined]] (Sync [Effect 9]) 12) = Fulfilled \<and>
   filter (is_settle Final) (log (makeMiddlewareExecutor [Sync [Next Undefined]] (Sync [Effect 9]) 12)) =
     [Settle Final Fulfilled] \<and>
   outcome (makeMiddlewareExecutor [Sync [Throw (ErrorObj ''boom'')]] (Sync [Effect 9]) 12)
     = Rejected (ErrorObj ''boom'') \<and>
   filter (is_settle Final) (log (makeMiddlewareExecutor [Sync [Throw (ErrorObj ''boom'')]] (Sync [Effect 9]) 12)) =
     [Settle Final (Rejected (ErrorObj ''boom''))] \<and>
   outcome (makeMiddlewareExecutor [Async [AwaitNext Undefined]] (Async [AwaitTick]) 12) = Fulfilled \<and>
   filter (is_settle Final) (log (makeMiddlewareExecutor [Async [AwaitNext Undefined]] (Async [AwaitTick]) 12)) =
     [Settle Final Fulfilled] \<and>
   outcome (makeMiddlewareExecutor [Async [AwaitNext Undefined]]
      (Async [AwaitTick, Throw (ErrorObj ''boom'')]) 12) = Rejected (ErrorObj ''boom'') \<and>
   filter (is_settle Final) (log (makeMiddlewareExecutor [Async [AwaitNext Undefined]]
      (Async [AwaitTick, Throw (ErrorObj ''boom'')]) 12)) = [Settle Final (Rejected (ErrorObj ''boom''))] \<and>
   pst (proms (makeMiddlewareExecutor [Async [AwaitNext Undefined]]
      (Async [AwaitTick, Throw (ErrorObj ''boom'')]) 12) (Internal 0)) \<noteq> Pending"
proof -
  have w: "wrem [Sync [Next Undefined]] (Sync [Effect 9]) \<le> 12"
    "wrem [Sync [Throw (ErrorObj ''boom'')]] (Sync [Effect 9]) \<le> 12"
    "wrem [Async [AwaitNext Undefined]] (Async [AwaitTick]) \<le> 12"
    "wrem [Async [AwaitNext Undefined]] (Async [AwaitTick, Throw (ErrorObj ''boom'')]) \<le> 12"
    by (simp_all add: wts_def)
  have o: "outcome (makeMiddlewareExecutor [Sync [Next Undefined]] (Sync [Effect 9]) 12) = Fulfilled"
    "outcome (makeMiddlewareExecutor [Sync [Throw (ErrorObj ''boom'')]] (Sync [Effect 9]) 12)
       = Rejected (ErrorObj ''boom'')"
    "outcome (makeMiddlewareExecutor [Async [AwaitNext Undefined]] (Async [AwaitTick]) 12) = Fulfilled"
    "outcome (makeMiddlewareExecutor [Async [AwaitNext Undefined]]
      (Async [AwaitTick, Throw (ErrorObj ''boom'')]) 12) = Rejected (ErrorObj ''boom'')"
    by code_simp+
  have c: "MwCall 0 \<in> set (log (makeMiddlewareExecutor [Async [AwaitNext Undefined]]
      (Async [AwaitTick, Throw (ErrorObj ''boom'')]) 12))"
    by code_simp
  note t = single_settlement [where p = Final and n = 12 and e = 0]
  from t [of "[Sync [Next Undefined]]" "Sync [Effect 9]"] o(1)
  have 1: "filter (is_settle Final) (log (makeMiddlewareExecutor [Sync [Next Undefined]] (Sync [Effect 9]) 12)) =
     [Settle Final Fulfilled]" by (simp add: outcome_def)
  from t [of "[Sync [Throw (ErrorObj ''boom'')]]" "Sync [Effect 9]"] o(2)
  have 2: "filter (is_settle Final) (log (makeMiddlewareExecutor [Sync [Throw (ErrorObj ''boom'')]] (Sync [Effect 9]) 12)) =
     [Settle Final (Rejected (ErrorObj ''boom''))]" by (simp add: outcome_def)
  from t [of "[Async [AwaitNext Undefined]]" "Async [AwaitTick]"] o(3)
  have 3: "filter (is_settle Final) (log (makeMiddlewareExecutor [Async [AwaitNext Undefined]] (Async [AwaitTick]) 12)) =
     [Settle Final Fulfilled]" by (simp add: outcome_def)
  from t [of "[Async [AwaitNext Undefined]]" "Async [AwaitTick, Throw (ErrorObj ''boom'')]"] o(4) w(4) c
  have 4: "filter (is_settle Final) (log (makeMiddlewareExecutor [Async [AwaitNext Undefined]]
      (Async [AwaitTick, Throw (ErrorObj ''boom'')]) 12)) = [Settle Final (Rejected (ErrorObj ''boom''))] \<and>
   pst (proms (makeMiddlewareExecutor [Async [AwaitNext Undefined]]
      (Async [AwaitTick, Throw (ErrorObj ''boom'')]) 12) (Internal 0)) \<noteq> Pending"
    by (simp add: outcome_def)
  from o 1 2 3 4 show ?thesis by simp
qed

end
